theory Spec2Isabelle
  imports Main "HOL-Library.Extended_Nat"
begin

section \<open>JavaScript containers\<close>

text \<open>
  A JavaScript \<open>Map\<close> keeps its keys in insertion order; \<open>set\<close> on a key that is
  already present replaces the value in place, on a new key it appends.  It is modelled as
  an association list with that update.  A \<open>Set\<close> of strings is modelled as the list of
  its members in insertion order; only membership is ever asked of it.
\<close>

type_synonym 'v js_map = "(string \<times> 'v) list"

definition map_has :: "'v js_map \<Rightarrow> string \<Rightarrow> bool" where
  "map_has m k = (map_of m k \<noteq> None)"

definition map_get :: "'v js_map \<Rightarrow> string \<Rightarrow> 'v option" where
  "map_get m k = map_of m k"

fun map_set :: "'v js_map \<Rightarrow> string \<Rightarrow> 'v \<Rightarrow> 'v js_map" where
  "map_set [] k v = [(k, v)]"
| "map_set ((k', v') # m) k v = (if k' = k then (k, v) # m else (k', v') # map_set m k v)"

section \<open>The channel graph (class ChannelGraph)\<close>

text \<open>
  The records follow the object literals of the source.  A connection is
  \<open>{to, messageLink, messageDate}\<close>, a channel entry is \<open>{name, connections}\<close>, a link of
  a result is \<open>{from, to, messageLink, messageDate}\<close>.  Field names that several object
  shapes share carry the shape as a prefix.
\<close>

record connection =
  conn_to :: string
  conn_messageLink :: string
  conn_messageDate :: string

record channel_data =
  name :: string
  connections :: "connection list"

record link =
  link_from :: string
  link_to :: string
  link_messageLink :: string
  link_messageDate :: string

record ChannelGraph =
  channels :: "channel_data js_map"
  nameToId :: "string js_map"

record path_result =
  path :: "string list"
  links :: "link list"

definition new_ChannelGraph :: ChannelGraph where
  "new_ChannelGraph = \<lparr>channels = [], nameToId = []\<rparr>"

text \<open>
  \<open>String.prototype.toLowerCase\<close>.  The characters of this theory are the code units
  U+0000 to U+00FF.  Among them the capital letters are \<open>A\<close> to \<open>Z\<close> and U+00C0 to U+00DE
  without the multiplication sign U+00D7; the small letter of each is 32 places later.
\<close>

definition lower_char :: "char \<Rightarrow> char" where
  "lower_char c =
     (let n = (of_char c :: nat) in
      if (65 \<le> n \<and> n \<le> 90) \<or> (192 \<le> n \<and> n \<le> 222 \<and> n \<noteq> 215)
      then char_of (n + 32) else c)"

definition toLowerCase :: "string \<Rightarrow> string" where
  "toLowerCase s = map lower_char s"

definition addConnection ::
  "ChannelGraph \<Rightarrow> string \<Rightarrow> string \<Rightarrow> string \<Rightarrow> string \<Rightarrow> string \<Rightarrow> string \<Rightarrow> ChannelGraph" where
  "addConnection g fromId toId fromName toName mLink mDate =
     (let g1 = (if \<not> map_has (channels g) fromId
                then g\<lparr>channels := map_set (channels g) fromId \<lparr>name = fromName, connections = []\<rparr>,
                       nameToId := map_set (nameToId g) (toLowerCase fromName) fromId\<rparr>
                else g);
          g2 = (if \<not> map_has (channels g1) toId
                then g1\<lparr>channels := map_set (channels g1) toId \<lparr>name = toName, connections = []\<rparr>,
                        nameToId := map_set (nameToId g1) (toLowerCase toName) toId\<rparr>
                else g1)
      in case map_get (channels g2) fromId of
           None \<Rightarrow> g2
         | Some cd \<Rightarrow>
             g2\<lparr>channels := map_set (channels g2) fromId
                   (cd\<lparr>connections := connections cd @
                        [\<lparr>conn_to = toId, conn_messageLink = mLink, conn_messageDate = mDate\<rparr>]\<rparr>)\<rparr>)"

text \<open>\<open>getChannelName\<close>: \<open>this.channels.get(id)?.name || id\<close>; the empty name is falsy.\<close>

definition getChannelName :: "ChannelGraph \<Rightarrow> string \<Rightarrow> string" where
  "getChannelName g ident =
     (case map_get (channels g) ident of
        None \<Rightarrow> ident
      | Some cd \<Rightarrow> if name cd = [] then ident else name cd)"

text \<open>\<open>buildLinks\<close>: one link per consecutive pair of the path that has a recorded
  connection, the first such connection in the source channel's list.\<close>

fun buildLinks :: "ChannelGraph \<Rightarrow> string list \<Rightarrow> link list" where
  "buildLinks g (u # v # rest) =
     (case map_get (channels g) u of
        None \<Rightarrow> []
      | Some cd \<Rightarrow>
          (case find (\<lambda>c. conn_to c = v) (connections cd) of
             None \<Rightarrow> []
           | Some c \<Rightarrow> [\<lparr>link_from = getChannelName g u, link_to = getChannelName g v,
                         link_messageLink = conn_messageLink c,
                         link_messageDate = conn_messageDate c\<rparr>]))
     @ buildLinks g (v # rest)"
| "buildLinks g _ = []"

subsection \<open>findPath\<close>

text \<open>
  The \<open>for\<close> loop over the connections of the dequeued node.  It either returns the full
  path (\<open>Inl\<close>, the \<open>return\<close> inside the loop) or ends with the visited set and the queue as
  the loop left them (\<open>Inr\<close>).
\<close>

fun findPath_expand ::
  "string \<Rightarrow> string list \<Rightarrow> connection list \<Rightarrow> string list \<Rightarrow> string list list
     \<Rightarrow> string list + (string list \<times> string list list)" where
  "findPath_expand endId p [] visited queue = Inr (visited, queue)"
| "findPath_expand endId p (c # cs) visited queue =
     (if conn_to c = endId then Inl (p @ [endId])
      else if conn_to c \<notin> set visited
      then findPath_expand endId p cs (visited @ [conn_to c]) (queue @ [p @ [conn_to c]])
      else findPath_expand endId p cs visited queue)"

text \<open>\<open>path[path.length - 1]\<close>: \<open>undefined\<close> on the empty array, and then
  \<open>this.channels.get(undefined)\<close> is \<open>undefined\<close> too.\<close>

definition current_data :: "ChannelGraph \<Rightarrow> string list \<Rightarrow> channel_data option" where
  "current_data g p = (if p = [] then None else map_get (channels g) (last p))"

text \<open>All ids that occur as the target of a connection: the ids the search can ever mark.\<close>

definition targets :: "ChannelGraph \<Rightarrow> string set" where
  "targets g = (\<Union>cd \<in> snd ` set (channels g). conn_to ` set (connections cd))"

lemma finite_targets: "finite (targets g)"
  by (simp add: targets_def)

lemma map_get_targets:
  "map_get (channels g) u = Some cd \<Longrightarrow> conn_to ` set (connections cd) \<subseteq> targets g"
  unfolding map_get_def targets_def
  by (force dest: map_of_SomeD)

lemma findPath_expand_Inr:
  "findPath_expand endId p cs visited queue = Inr (visited', queue') \<Longrightarrow>
     endId \<notin> conn_to ` set cs \<and>
     (\<exists>new. visited' = visited @ new \<and> queue' = queue @ map (\<lambda>w. p @ [w]) new \<and>
            set new = conn_to ` set cs - set visited \<and> distinct new)"
proof (induction cs arbitrary: visited queue)
  case Nil
  then show ?case by simp
next
  case (Cons c cs)
  show ?case
  proof (cases "conn_to c = endId")
    case True
    with Cons.prems show ?thesis by simp
  next
    case ne: False
    show ?thesis
    proof (cases "conn_to c \<in> set visited")
      case True
      with ne Cons.prems
      have "findPath_expand endId p cs visited queue = Inr (visited', queue')" by simp
      from Cons.IH [OF this] ne True show ?thesis by auto
    next
      case False
      with ne Cons.prems
      have "findPath_expand endId p cs (visited @ [conn_to c]) (queue @ [p @ [conn_to c]])
              = Inr (visited', queue')" by simp
      from Cons.IH [OF this] obtain new where
        e: "endId \<notin> conn_to ` set cs"
        and v: "visited' = (visited @ [conn_to c]) @ new"
        and q: "queue' = (queue @ [p @ [conn_to c]]) @ map (\<lambda>w. p @ [w]) new"
        and s: "set new = conn_to ` set cs - set (visited @ [conn_to c])"
        and d: "distinct new" by blast
      let ?new = "conn_to c # new"
      have 1: "visited' = visited @ ?new" using v by simp
      have 2: "queue' = queue @ map (\<lambda>w. p @ [w]) ?new" using q by simp
      have 3: "set ?new = conn_to ` set (c # cs) - set visited"
        using s False by auto
      have 4: "distinct ?new" using d s by auto
      have 5: "endId \<notin> conn_to ` set (c # cs)" using e ne by auto
      from 1 2 3 4 have "\<exists>new. visited' = visited @ new \<and>
          queue' = queue @ map (\<lambda>w. p @ [w]) new \<and>
          set new = conn_to ` set (c # cs) - set visited \<and> distinct new"
        by (intro exI [of _ ?new] conjI)
      with 5 show ?thesis by (rule conjI)
    qed
  qed
qed

lemma findPath_expand_Inl:
  "findPath_expand endId p cs visited queue = Inl full \<Longrightarrow>
     full = p @ [endId] \<and> endId \<in> conn_to ` set cs"
  by (induction cs arbitrary: visited queue) (auto split: if_splits)

text \<open>
  The \<open>while (queue.length > 0)\<close> loop.  \<open>maxHops\<close> is an extended natural number:
  the default \<open>Infinity\<close> is \<open>\<infinity>\<close>.
\<close>

function findPath_loop ::
  "ChannelGraph \<Rightarrow> string \<Rightarrow> enat \<Rightarrow> string list list \<Rightarrow> string list \<Rightarrow> path_result option" where
  "findPath_loop g endId maxHops [] visited = None"
| "findPath_loop g endId maxHops (p # queue) visited =
     (if enat (length p) > maxHops then findPath_loop g endId maxHops queue visited
      else case current_data g p of
        None \<Rightarrow> findPath_loop g endId maxHops queue visited
      | Some channelData \<Rightarrow>
          (case findPath_expand endId p (connections channelData) visited queue of
             Inl fullPath \<Rightarrow> Some \<lparr>path = fullPath, links = buildLinks g fullPath\<rparr>
           | Inr (visited', queue') \<Rightarrow> findPath_loop g endId maxHops queue' visited'))"
  by pat_completeness auto

termination
proof (relation "(\<lambda>(g, endId, maxHops, queue, visited). card (targets g - set visited))
                   <*mlex*> measure (\<lambda>(g, endId, maxHops, queue, visited). length queue)")
  show "wf ((\<lambda>(g, endId, maxHops, queue, visited). card (targets g - set visited))
              <*mlex*> measure (\<lambda>(g, endId, maxHops, queue, visited). length queue))"
    by (simp add: wf_mlex)
next
  fix g :: ChannelGraph and endId :: string and maxHops :: enat
    and p :: "string list" and queue :: "string list list" and visited :: "string list"
  show "((g, endId, maxHops, queue, visited), (g, endId, maxHops, p # queue, visited))
          \<in> (\<lambda>(g, endId, maxHops, queue, visited). card (targets g - set visited))
              <*mlex*> measure (\<lambda>(g, endId, maxHops, queue, visited). length queue)"
    by (simp add: mlex_iff)
  then show "((g, endId, maxHops, queue, visited), (g, endId, maxHops, p # queue, visited))
          \<in> (\<lambda>(g, endId, maxHops, queue, visited). card (targets g - set visited))
              <*mlex*> measure (\<lambda>(g, endId, maxHops, queue, visited). length queue)" .
next
  fix g :: ChannelGraph and endId :: string and maxHops :: enat
    and p :: "string list" and queue :: "string list list" and visited :: "string list"
    and channelData :: channel_data and xy :: "string list \<times> string list list"
    and visited' :: "string list" and queue' :: "string list list"
  assume cur: "current_data g p = Some channelData"
    and ex: "findPath_expand endId p (connections channelData) visited queue = Inr xy"
    and xy: "(visited', queue') = xy"
  from ex xy have "findPath_expand endId p (connections channelData) visited queue
                     = Inr (visited', queue')" by simp
  from findPath_expand_Inr [OF this] obtain new where
    v: "visited' = visited @ new" and q: "queue' = queue @ map (\<lambda>w. p @ [w]) new"
    and s: "set new = conn_to ` set (connections channelData) - set visited" by blast
  from cur have "map_get (channels g) (last p) = Some channelData"
    by (simp add: current_data_def split: if_splits)
  from map_get_targets [OF this] s have sub: "set new \<subseteq> targets g - set visited" by blast
  show "((g, endId, maxHops, queue', visited'), (g, endId, maxHops, p # queue, visited))
          \<in> (\<lambda>(g, endId, maxHops, queue, visited). card (targets g - set visited))
              <*mlex*> measure (\<lambda>(g, endId, maxHops, queue, visited). length queue)"
  proof (cases "new = []")
    case True
    with v q show ?thesis by (simp add: mlex_iff)
  next
    case False
    then obtain w where w: "w \<in> set new" by (cases new) auto
    have "targets g - set visited' \<subset> targets g - set visited"
      using v w sub by auto
    then have "card (targets g - set visited') < card (targets g - set visited)"
      by (intro psubset_card_mono) (simp_all add: finite_targets)
    then show ?thesis by (simp add: mlex_iff)
  qed
qed

definition findPath :: "ChannelGraph \<Rightarrow> string \<Rightarrow> string \<Rightarrow> enat \<Rightarrow> path_result option" where
  "findPath g startId endId maxHops =
     (if startId = endId then Some \<lparr>path = [startId], links = []\<rparr>
      else findPath_loop g endId maxHops [[startId]] [startId])"

subsection \<open>findAllPathsWithinHops\<close>

text \<open>The \<open>for\<close> loop of \<open>findAllPathsWithinHops\<close>: every unvisited target is marked,
  enqueued and recorded in \<open>reachable\<close> with the path that reached it.\<close>

fun findAll_expand ::
  "ChannelGraph \<Rightarrow> string list \<Rightarrow> connection list \<Rightarrow> string list \<Rightarrow> string list list
     \<Rightarrow> path_result js_map \<Rightarrow> string list \<times> string list list \<times> path_result js_map" where
  "findAll_expand g p [] visited queue reachable = (visited, queue, reachable)"
| "findAll_expand g p (c # cs) visited queue reachable =
     (if conn_to c \<notin> set visited
      then findAll_expand g p cs (visited @ [conn_to c]) (queue @ [p @ [conn_to c]])
             (map_set reachable (conn_to c)
                \<lparr>path = p @ [conn_to c], links = buildLinks g (p @ [conn_to c])\<rparr>)
      else findAll_expand g p cs visited queue reachable)"

lemma findAll_expand_result:
  "findAll_expand g p cs visited queue reachable = (visited', queue', reachable') \<Longrightarrow>
     \<exists>new. visited' = visited @ new \<and> queue' = queue @ map (\<lambda>w. p @ [w]) new \<and>
           set new = conn_to ` set cs - set visited"
proof (induction cs arbitrary: visited queue reachable)
  case Nil
  then show ?case by simp
next
  case (Cons c cs)
  show ?case
  proof (cases "conn_to c \<in> set visited")
    case True
    with Cons.prems
    have "findAll_expand g p cs visited queue reachable = (visited', queue', reachable')"
      by simp
    from Cons.IH [OF this] True show ?thesis by auto
  next
    case False
    with Cons.prems
    have "findAll_expand g p cs (visited @ [conn_to c]) (queue @ [p @ [conn_to c]])
            (map_set reachable (conn_to c)
               \<lparr>path = p @ [conn_to c], links = buildLinks g (p @ [conn_to c])\<rparr>)
          = (visited', queue', reachable')" by simp
    from Cons.IH [OF this] obtain new where
      v: "visited' = (visited @ [conn_to c]) @ new"
      and q: "queue' = (queue @ [p @ [conn_to c]]) @ map (\<lambda>w. p @ [w]) new"
      and s: "set new = conn_to ` set cs - set (visited @ [conn_to c])" by blast
    let ?new = "conn_to c # new"
    have 1: "visited' = visited @ ?new" using v by simp
    have 2: "queue' = queue @ map (\<lambda>w. p @ [w]) ?new" using q by simp
    have 3: "set ?new = conn_to ` set (c # cs) - set visited" using s False by auto
    from 1 2 3 show ?thesis by (intro exI [of _ ?new] conjI)
  qed
qed

function findAll_loop ::
  "ChannelGraph \<Rightarrow> nat \<Rightarrow> string list list \<Rightarrow> string list \<Rightarrow> path_result js_map
     \<Rightarrow> path_result js_map" where
  "findAll_loop g maxHops [] visited reachable = reachable"
| "findAll_loop g maxHops (p # queue) visited reachable =
     (if length p > maxHops + 1 then findAll_loop g maxHops queue visited reachable
      else case current_data g p of
        None \<Rightarrow> findAll_loop g maxHops queue visited reachable
      | Some channelData \<Rightarrow>
          (case findAll_expand g p (connections channelData) visited queue reachable of
             (visited', queue', reachable') \<Rightarrow> findAll_loop g maxHops queue' visited' reachable'))"
  by pat_completeness auto

termination
proof (relation "(\<lambda>(g, maxHops, queue, visited, reachable). card (targets g - set visited))
                   <*mlex*> measure (\<lambda>(g, maxHops, queue, visited, reachable). length queue)")
  show "wf ((\<lambda>(g, maxHops, queue, visited, reachable). card (targets g - set visited))
              <*mlex*> measure (\<lambda>(g, maxHops, queue, visited, reachable). length queue))"
    by (simp add: wf_mlex)
next
  fix g :: ChannelGraph and maxHops :: nat and reachable :: "path_result js_map"
    and p :: "string list" and queue :: "string list list" and visited :: "string list"
  show "((g, maxHops, queue, visited, reachable), (g, maxHops, p # queue, visited, reachable))
          \<in> (\<lambda>(g, maxHops, queue, visited, reachable). card (targets g - set visited))
              <*mlex*> measure (\<lambda>(g, maxHops, queue, visited, reachable). length queue)"
    by (simp add: mlex_iff)
  then show "((g, maxHops, queue, visited, reachable), (g, maxHops, p # queue, visited, reachable))
          \<in> (\<lambda>(g, maxHops, queue, visited, reachable). card (targets g - set visited))
              <*mlex*> measure (\<lambda>(g, maxHops, queue, visited, reachable). length queue)" .
next
  fix g :: ChannelGraph and maxHops :: nat and reachable :: "path_result js_map"
    and p :: "string list" and queue :: "string list list" and visited :: "string list"
    and channelData :: channel_data
    and y :: "string list list \<times> path_result js_map"
    and visited' :: "string list" and queue' :: "string list list"
    and reachable' :: "path_result js_map"
  assume cur: "current_data g p = Some channelData"
    and ex: "(visited', y) = findAll_expand g p (connections channelData) visited queue reachable"
    and y: "(queue', reachable') = y"
  from ex [symmetric] y [symmetric] have "findAll_expand g p (connections channelData) visited queue reachable
                     = (visited', queue', reachable')" by simp
  from findAll_expand_result [OF this] obtain new where
    v: "visited' = visited @ new" and q: "queue' = queue @ map (\<lambda>w. p @ [w]) new"
    and s: "set new = conn_to ` set (connections channelData) - set visited" by blast
  from cur have "map_get (channels g) (last p) = Some channelData"
    by (simp add: current_data_def split: if_splits)
  from map_get_targets [OF this] s have sub: "set new \<subseteq> targets g - set visited" by blast
  show "((g, maxHops, queue', visited', reachable'), (g, maxHops, p # queue, visited, reachable))
          \<in> (\<lambda>(g, maxHops, queue, visited, reachable). card (targets g - set visited))
              <*mlex*> measure (\<lambda>(g, maxHops, queue, visited, reachable). length queue)"
  proof (cases "new = []")
    case True
    with v q show ?thesis by (simp add: mlex_iff)
  next
    case False
    then obtain w where w: "w \<in> set new" by (cases new) auto
    have "targets g - set visited' \<subset> targets g - set visited"
      using v w sub by auto
    then have "card (targets g - set visited') < card (targets g - set visited)"
      by (intro psubset_card_mono) (simp_all add: finite_targets)
    then show ?thesis by (simp add: mlex_iff)
  qed
qed

definition findAllPathsWithinHops :: "ChannelGraph \<Rightarrow> string \<Rightarrow> nat \<Rightarrow> path_result js_map" where
  "findAllPathsWithinHops g startId maxHops = findAll_loop g maxHops [[startId]] [startId] []"

section \<open>Edge records and the graph loader (loadData)\<close>

text \<open>One line of the edge log, as the scanner builds it and the loader reads it.\<close>

record EdgeRecord =
  "from" :: string
  to :: string
  fromName :: string
  toName :: string
  messageTs :: string
  messageDate :: string
  messageLink :: string

text \<open>The loop of \<open>loadData\<close> over the parsed lines of the log, in file order.\<close>

definition loadData_records :: "EdgeRecord list \<Rightarrow> ChannelGraph" where
  "loadData_records conns =
     foldl (\<lambda>graph conn. addConnection graph (from conn) (to conn) (fromName conn) (toName conn)
                           (messageLink conn) (messageDate conn))
       new_ChannelGraph conns"

text \<open>An edge record with the given endpoints, for the examples below.\<close>

definition edge :: "string \<Rightarrow> string \<Rightarrow> EdgeRecord" where
  "edge a b = \<lparr>from = a, to = b, fromName = a, toName = b, messageTs = ''1.0'',
               messageDate = ''d'', messageLink = ''l''\<rparr>"

section \<open>The crawler (index.js)\<close>

subsection \<open>Data\<close>

record Channel =
  channel_id :: string
  channel_name :: string

record Message =
  msg_text :: "string option"
  msg_ts :: string

record Checkpoint =
  lastChannelIndex :: int
  lastChannelId :: string
  lastMessageCount :: nat
  timestamp :: string

record ChannelCache =
  cachedAt :: string
  totalChannels :: nat
  cache_channels :: "Channel list"

record Metadata =
  workspace :: string
  generatedAt :: string
  md_totalChannels :: nat
  processingTimeSeconds :: string
  outputFile :: string
  md_channels :: "string \<rightharpoonup> Channel"

datatype js_error = ENOENT | IOError | SyntaxError | TypeError | RangeError | ApiError string

text \<open>
  A JSON file as the code sees it through \<open>fs.readFile\<close> followed by \<open>JSON.parse\<close>:
  absent, present but unreadable, holding text that is not JSON, or holding a value.
  \<open>JSON.stringify\<close> followed by \<open>JSON.parse\<close> is taken to give the value back, and
  writes are taken to succeed.
\<close>

datatype 'a json_file = Absent | Unreadable | Garbled | Holds 'a

fun read_json :: "'a json_file \<Rightarrow> js_error + 'a" where
  "read_json Absent = Inl ENOENT"
| "read_json Unreadable = Inl IOError"
| "read_json Garbled = Inl SyntaxError"
| "read_json (Holds v) = Inr v"

text \<open>
  What the checkpoint file can hold: \<open>null\<close>, a checkpoint as \<open>saveCheckpoint\<close> writes it,
  or some other JSON value without a \<open>lastChannelIndex\<close> property.
\<close>

datatype checkpoint_json = JsonNull | JsonCheckpoint Checkpoint | JsonOther

text \<open>What \<open>loadCheckpoint\<close> returns: the literal
  \<open>{lastChannelIndex: -1, processedChannels: []}\<close> or the parsed file.\<close>

datatype checkpoint_value = Sentinel | Parsed checkpoint_json

text \<open>Lines of the console that the model keeps; all other output is left out.\<close>

datatype log_line = LogScan string string | LogEdge EdgeRecord | LogText string

datatype api_call = ListCall "string option" | HistoryCall string "string option" | JoinCall string

datatype list_response = ListPage "Channel list" "string option" | ListError string

datatype history_response = HistoryPage "Message list" "string option" | HistoryError string

text \<open>
  The crawler's surroundings.  \<open>output_file\<close> is \<open>channel-links.jsonl\<close> as the list of
  its records (\<open>None\<close>: no such file), the other three files are \<open>checkpoint.json\<close>,
  \<open>channels-cache.json\<close> and \<open>channel-metadata.json\<close>.  \<open>api_calls\<close> lists the requests
  sent to the workspace API so far.
\<close>

record world =
  output_file :: "EdgeRecord list option"
  checkpoint_file :: "checkpoint_json json_file"
  cache_file :: "ChannelCache json_file"
  metadata_file :: "Metadata option"
  console :: "log_line list"
  api_calls :: "api_call list"

text \<open>
  The process environment: the two flags, the clock readings and the date formatting
  \<open>new Date(parseFloat(ts) * 1000).toISOString()\<close>, which throws a \<open>RangeError\<close> (\<open>None\<close>)
  on a timestamp that is not a number.
\<close>

record env =
  DEBUG :: bool
  CLEAR_CHANNEL_CACHE :: bool
  now :: string
  elapsed :: string
  toISOString :: "string \<Rightarrow> string option"

definition CHECKPOINT_EVERY_N_MESSAGES :: nat where
  "CHECKPOINT_EVERY_N_MESSAGES = 10000"

definition WRITE_BATCH_SIZE :: nat where
  "WRITE_BATCH_SIZE = 5"

subsection \<open>The mention pattern\<close>

text \<open>
  \<open>/<#([A-Z0-9]+)(?:\|[^>]*)?>/g\<close>.  The id is the longest run of capitals and digits
  after \<open><#\<close>; it must be followed by \<open>>\<close>, or by \<open>|\<close>, any characters other than
  \<open>>\<close>, and \<open>>\<close>.  No shorter id or label can match where the longest one does not, so
  the match at a position is unique.
\<close>

definition is_id_char :: "char \<Rightarrow> bool" where
  "is_id_char c \<longleftrightarrow> (65 \<le> (of_char c :: nat) \<and> (of_char c :: nat) \<le> 90) \<or>
                     (48 \<le> (of_char c :: nat) \<and> (of_char c :: nat) \<le> 57)"

definition match_mention :: "string \<Rightarrow> (string \<times> string) option" where
  "match_mention s =
     (case s of
        c1 # c2 # s' \<Rightarrow>
          if c1 = CHR ''<'' \<and> c2 = CHR ''#'' then
            (let ident = takeWhile is_id_char s'; after = dropWhile is_id_char s' in
             if ident = [] then None
             else case after of
               [] \<Rightarrow> None
             | d # r \<Rightarrow>
                 if d = CHR ''>'' then Some (ident, r)
                 else if d = CHR ''|'' then
                   (case dropWhile (\<lambda>c. c \<noteq> CHR ''>'') r of
                      [] \<Rightarrow> None
                    | _ # r' \<Rightarrow> Some (ident, r'))
                 else None)
          else None
      | _ \<Rightarrow> None)"

lemma match_mention_shorter: "match_mention s = Some (ident, r) \<Longrightarrow> length r < length s"
proof -
  assume m: "match_mention s = Some (ident, r)"
  have d: "length (dropWhile P xs) \<le> length xs" for P and xs :: string
    by (rule length_dropWhile_le)
  from m obtain s' where s: "s = CHR ''<'' # CHR ''#'' # s'"
    by (auto simp: match_mention_def split: list.splits if_splits)
  from m s obtain e r0 where a: "dropWhile is_id_char s' = e # r0"
    by (auto simp: match_mention_def Let_def split: list.splits if_splits)
  from d [of is_id_char s'] a have l0: "length r0 < length s'" by simp
  show ?thesis
  proof (cases "e = CHR ''>''")
    case True
    with m s a have "r = r0" by (simp add: match_mention_def Let_def split: if_splits)
    with l0 s show ?thesis by simp
  next
    case False
    with m s a obtain x where "dropWhile (\<lambda>c. c \<noteq> CHR ''>'') r0 = x # r"
      by (auto simp: match_mention_def Let_def split: list.splits if_splits)
    with d [of "\<lambda>c. c \<noteq> CHR ''>''" r0] have "length r < length r0" by simp
    with l0 s show ?thesis by simp
  qed
qed

text \<open>\<open>text.matchAll(CHANNEL_MENTION_REGEX)\<close>, keeping the first group of every match.\<close>

function channel_mentions :: "string \<Rightarrow> string list" where
  "channel_mentions [] = []"
| "channel_mentions (c # s) =
     (case match_mention (c # s) of
        Some (ident, r) \<Rightarrow> ident # channel_mentions r
      | None \<Rightarrow> channel_mentions s)"
  by pat_completeness auto

termination
proof (relation "measure length")
  show "wf (measure length)" by simp
next
  fix c :: char and s :: string
  show "(s, c # s) \<in> measure length" by simp
next
  fix c :: char and s x2 :: string and xy :: "string \<times> string" and ident r :: string
  assume "match_mention (c # s) = Some xy" and "(ident, r) = xy"
  then have "match_mention (c # s) = Some (ident, r)" by simp
  from match_mention_shorter [OF this] show "(r, c # s) \<in> measure length" by simp
qed

subsection \<open>Checkpoints and the edge log\<close>

definition loadCheckpoint_try :: "world \<Rightarrow> js_error + checkpoint_value" where
  "loadCheckpoint_try w =
     (case read_json (checkpoint_file w) of
        Inl err \<Rightarrow> Inl err
      | Inr JsonNull \<Rightarrow> Inl TypeError
      | Inr v \<Rightarrow> Inr (Parsed v))"

text \<open>\<open>loadCheckpoint\<close>: the \<open>try\<close> block reads and parses the file and, for the log
  line, reads \<open>checkpoint.lastChannelIndex\<close> (a \<open>TypeError\<close> on \<open>null\<close>); the \<open>catch\<close>
  block returns the sentinel.\<close>

definition loadCheckpoint :: "env \<Rightarrow> world \<Rightarrow> js_error + checkpoint_value" where
  "loadCheckpoint e w =
     (if DEBUG e then Inr Sentinel
      else case loadCheckpoint_try w of
        Inl err \<Rightarrow> Inr Sentinel
      | Inr checkpoint \<Rightarrow> Inr checkpoint)"

definition saveCheckpoint :: "env \<Rightarrow> int \<Rightarrow> string \<Rightarrow> nat \<Rightarrow> world \<Rightarrow> world" where
  "saveCheckpoint e channelIndex channelId msgCount w =
     (if DEBUG e then w
      else w\<lparr>checkpoint_file :=
               Holds (JsonCheckpoint \<lparr>lastChannelIndex = channelIndex, lastChannelId = channelId,
                                      lastMessageCount = msgCount, timestamp = now e\<rparr>)\<rparr>)"

definition clearCheckpoint :: "world \<Rightarrow> world" where
  "clearCheckpoint w = w\<lparr>checkpoint_file := Absent\<rparr>"

definition appendConnections :: "env \<Rightarrow> EdgeRecord list \<Rightarrow> world \<Rightarrow> world" where
  "appendConnections e conns w =
     (if conns = [] then w
      else if DEBUG e then w\<lparr>console := console w @ map LogEdge conns\<rparr>
      else w\<lparr>output_file :=
                Some ((case output_file w of None \<Rightarrow> [] | Some ls \<Rightarrow> ls) @ conns)\<rparr>)"

subsection \<open>scanChannelMessages\<close>

record scan_state =
  seenLinks :: "string list"
  pendingWrites :: "EdgeRecord list"
  messageCount :: nat
  batchCount :: nat
  totalLinksFound :: nat

definition initial_scan_state :: scan_state where
  "initial_scan_state =
     \<lparr>seenLinks = [], pendingWrites = [], messageCount = 0, batchCount = 0, totalLinksFound = 0\<rparr>"

datatype scan_result = Ok scan_state world | Thrown js_error scan_state world

text \<open>\<open>message.ts.replace('.', '')\<close> removes the first dot.\<close>

fun remove_first_dot :: "string \<Rightarrow> string" where
  "remove_first_dot [] = []"
| "remove_first_dot (c # s) = (if c = CHR ''.'' then s else c # remove_first_dot s)"

definition message_link :: "string \<Rightarrow> string \<Rightarrow> string" where
  "message_link channelId ts =
     ''https://hackclub.slack.com/archives/'' @ channelId @ ''/p'' @ remove_first_dot ts"

text \<open>\<open>channelNames.get(id) || id\<close>.\<close>

definition name_or_id :: "string js_map \<Rightarrow> string \<Rightarrow> string" where
  "name_or_id channelNames ident =
     (case map_get channelNames ident of
        None \<Rightarrow> ident
      | Some n \<Rightarrow> if n = [] then ident else n)"

definition make_connection ::
  "string js_map \<Rightarrow> string \<Rightarrow> string \<Rightarrow> string \<Rightarrow> string \<Rightarrow> string \<Rightarrow> EdgeRecord" where
  "make_connection channelNames channelId channelName ts mDate mentioned =
     \<lparr>from = channelId, to = mentioned, fromName = channelName,
      toName = name_or_id channelNames mentioned, messageTs = ts,
      messageDate = mDate, messageLink = message_link channelId ts\<rparr>"

text \<open>The loop over the matches of one message.\<close>

fun handle_mentions ::
  "env \<Rightarrow> string js_map \<Rightarrow> string \<Rightarrow> string \<Rightarrow> string \<Rightarrow> string list \<Rightarrow> scan_state \<Rightarrow> world
     \<Rightarrow> scan_result" where
  "handle_mentions e channelNames channelId channelName ts [] st w = Ok st w"
| "handle_mentions e channelNames channelId channelName ts (mentioned # rest) st w =
     (if mentioned \<noteq> channelId then
        if mentioned \<notin> set (seenLinks st) then
          (let st1 = st\<lparr>seenLinks := seenLinks st @ [mentioned]\<rparr> in
           case toISOString e ts of
             None \<Rightarrow> Thrown RangeError st1 w
           | Some mDate \<Rightarrow>
               (let connection = make_connection channelNames channelId channelName ts mDate mentioned;
                    st2 = st1\<lparr>pendingWrites := pendingWrites st1 @ [connection],
                              totalLinksFound := totalLinksFound st1 + 1\<rparr>
                in if length (pendingWrites st2) \<ge> WRITE_BATCH_SIZE
                   then handle_mentions e channelNames channelId channelName ts rest
                          (st2\<lparr>pendingWrites := []\<rparr>) (appendConnections e (pendingWrites st2) w)
                   else handle_mentions e channelNames channelId channelName ts rest st2 w))
        else handle_mentions e channelNames channelId channelName ts rest st w
      else handle_mentions e channelNames channelId channelName ts rest st w)"

text \<open>The mentions of a message: none when \<open>message.text\<close> is missing or empty.\<close>

definition message_mentions :: "Message \<Rightarrow> string list" where
  "message_mentions message =
     (case msg_text message of
        None \<Rightarrow> []
      | Some t \<Rightarrow> if t = [] then [] else channel_mentions t)"

text \<open>The loop over the messages of one page.\<close>

fun scan_messages ::
  "env \<Rightarrow> string js_map \<Rightarrow> string \<Rightarrow> string \<Rightarrow> Message list \<Rightarrow> scan_state \<Rightarrow> world
     \<Rightarrow> scan_result" where
  "scan_messages e channelNames channelId channelName [] st w = Ok st w"
| "scan_messages e channelNames channelId channelName (message # rest) st w =
     (case handle_mentions e channelNames channelId channelName (msg_ts message)
             (message_mentions message) st w of
        Thrown err st' w' \<Rightarrow> Thrown err st' w'
      | Ok st' w' \<Rightarrow>
          scan_messages e channelNames channelId channelName rest
            (st'\<lparr>messageCount := messageCount st' + 1\<rparr>) w')"

text \<open>A cursor is followed when it is truthy: present and not the empty string.\<close>

definition truthy :: "string option \<Rightarrow> bool" where
  "truthy c = (case c of None \<Rightarrow> False | Some s \<Rightarrow> s \<noteq> [])"

datatype pass_outcome = PassDone | PassThrown js_error | PassInterrupted

text \<open>
  The dates formatted at the head of a page, before its messages are visited.  With
  \<open>DEBUG\<close> set and a page that is not empty, the timestamps of its last and of its first
  message are formatted, in this order.  On the first page (\<open>batchCount === 1\<close>), if it is
  not empty, the timestamp of its first message is formatted, whether \<open>DEBUG\<close> is set or not.
  Each of them throws a \<open>RangeError\<close> on a timestamp that is not a number.
\<close>

definition page_dates :: "env \<Rightarrow> nat \<Rightarrow> Message list \<Rightarrow> js_error option" where
  "page_dates e batch messages =
     (if DEBUG e \<and> messages \<noteq> [] \<and> toISOString e (msg_ts (last messages)) = None
      then Some RangeError
      else if DEBUG e \<and> messages \<noteq> [] \<and> toISOString e (msg_ts (hd messages)) = None
      then Some RangeError
      else if batch = 1 \<and> messages \<noteq> [] \<and> toISOString e (msg_ts (hd messages)) = None
      then Some RangeError
      else None)"

text \<open>
  The body of the \<open>try\<close> block: the \<open>do ... while (cursor)\<close> loop over the history pages
  and the final flush.  The answers of \<open>conversations.history\<close> are taken from a script, in
  order; when the script has run out the process was stopped while it waited for the
  answer (\<open>PassInterrupted\<close>).  With \<open>DEBUG\<close> set the block formats one more date after
  the loop, that of the oldest message seen; it is a timestamp that \<open>page_dates\<close> has
  formatted before, so nothing is thrown there.
\<close>

fun scan_pass ::
  "env \<Rightarrow> string js_map \<Rightarrow> string \<Rightarrow> string \<Rightarrow> int \<Rightarrow> string option \<Rightarrow> scan_state \<Rightarrow> world
     \<Rightarrow> history_response list \<Rightarrow> pass_outcome \<times> scan_state \<times> world \<times> history_response list" where
  "scan_pass e channelNames channelId channelName channelIndex cursor st w [] =
     (PassInterrupted, st, w\<lparr>api_calls := api_calls w @ [HistoryCall channelId cursor]\<rparr>, [])"
| "scan_pass e channelNames channelId channelName channelIndex cursor st w (r # script) =
     (let w1 = w\<lparr>api_calls := api_calls w @ [HistoryCall channelId cursor]\<rparr> in
      case r of
        HistoryError code \<Rightarrow> (PassThrown (ApiError code), st, w1, script)
      | HistoryPage messages next_cursor \<Rightarrow>
          (case page_dates e (batchCount st + 1) messages of
             Some err \<Rightarrow> (PassThrown err, st\<lparr>batchCount := batchCount st + 1\<rparr>, w1, script)
           | None \<Rightarrow>
               (case scan_messages e channelNames channelId channelName messages
                       (st\<lparr>batchCount := batchCount st + 1\<rparr>) w1 of
                  Thrown err st2 w2 \<Rightarrow> (PassThrown err, st2, w2, script)
                | Ok st2 w2 \<Rightarrow>
                    (let w3 = (if messageCount st2 > 0 \<and>
                                  messageCount st2 mod CHECKPOINT_EVERY_N_MESSAGES = 0
                               then saveCheckpoint e channelIndex channelId (messageCount st2) w2
                               else w2)
                     in if truthy next_cursor
                        then scan_pass e channelNames channelId channelName channelIndex
                               next_cursor st2 w3 script
                        else (PassDone, st2,
                              (if pendingWrites st2 \<noteq> []
                               then appendConnections e (pendingWrites st2) w3 else w3),
                              script)))))"

datatype scan_outcome = ScanReturned | ScanInterrupted

text \<open>
  \<open>scanChannelMessages\<close>: the pass and the \<open>catch\<close> block.  On \<open>not_in_channel\<close> the bot
  joins the channel and the function calls itself; the answers of \<open>conversations.join\<close>
  come from a script of their own (\<open>True\<close>: joined).  Every other error ends the scan of
  this channel.
\<close>

fun scanChannelMessages ::
  "env \<Rightarrow> string js_map \<Rightarrow> string \<Rightarrow> string \<Rightarrow> int \<Rightarrow> world \<Rightarrow> history_response list \<Rightarrow> bool list
     \<Rightarrow> scan_outcome \<times> world \<times> history_response list \<times> bool list" where
  "scanChannelMessages e channelNames channelId channelName channelIndex w hs js =
     (case scan_pass e channelNames channelId channelName channelIndex None initial_scan_state
             (w\<lparr>console := console w @ [LogScan channelName channelId]\<rparr>) hs of
        (PassDone, st, w1, hs1) \<Rightarrow> (ScanReturned, w1, hs1, js)
      | (PassInterrupted, st, w1, hs1) \<Rightarrow> (ScanInterrupted, w1, hs1, js)
      | (PassThrown err, st, w1, hs1) \<Rightarrow>
          if err = ApiError ''not_in_channel'' then
            (case js of
               [] \<Rightarrow> (ScanInterrupted, w1\<lparr>api_calls := api_calls w1 @ [JoinCall channelId]\<rparr>, hs1, [])
             | joined # js1 \<Rightarrow>
                 if joined
                 then scanChannelMessages e channelNames channelId channelName channelIndex
                        (w1\<lparr>api_calls := api_calls w1 @ [JoinCall channelId]\<rparr>) hs1 js1
                 else (ScanReturned, w1\<lparr>api_calls := api_calls w1 @ [JoinCall channelId]\<rparr>,
                       hs1, js1))
          else (ScanReturned, w1, hs1, js))"

subsection \<open>getAllChannels\<close>

datatype 'a outcome = Done 'a | Failed js_error | Cut

text \<open>The \<open>do ... while (cursor)\<close> loop over the pages of \<open>conversations.list\<close>, answered
  from a script; \<open>Cut\<close> when the process was stopped while it waited for an answer.\<close>

fun fetch_channels ::
  "string option \<Rightarrow> Channel list \<Rightarrow> world \<Rightarrow> list_response list
     \<Rightarrow> Channel list outcome \<times> world \<times> list_response list" where
  "fetch_channels cursor allChannels w [] =
     (Cut, w\<lparr>api_calls := api_calls w @ [ListCall cursor]\<rparr>, [])"
| "fetch_channels cursor allChannels w (r # script) =
     (let w1 = w\<lparr>api_calls := api_calls w @ [ListCall cursor]\<rparr> in
      case r of
        ListError code \<Rightarrow> (Failed (ApiError code), w1, script)
      | ListPage chans next_cursor \<Rightarrow>
          if truthy next_cursor then fetch_channels next_cursor (allChannels @ chans) w1 script
          else (Done (allChannels @ chans), w1, script))"

definition getAllChannels ::
  "env \<Rightarrow> world \<Rightarrow> list_response list \<Rightarrow> Channel list outcome \<times> world \<times> list_response list" where
  "getAllChannels e w ls =
     (let w1 = (if CLEAR_CHANNEL_CACHE e then w\<lparr>cache_file := Absent\<rparr> else w);
          cached = (if \<not> CLEAR_CHANNEL_CACHE e then read_json (cache_file w1) else Inl ENOENT)
      in case cached of
           Inr cache \<Rightarrow> (Done (cache_channels cache), w1, ls)
         | Inl err \<Rightarrow>
             (case fetch_channels None [] w1 ls of
                (Done allChannels, w2, ls2) \<Rightarrow>
                  (Done allChannels,
                   w2\<lparr>cache_file := Holds \<lparr>cachedAt = now e, totalChannels = length allChannels,
                                            cache_channels = allChannels\<rparr>\<rparr>,
                   ls2)
              | (Failed err', w2, ls2) \<Rightarrow> (Failed err', w2, ls2)
              | (Cut, w2, ls2) \<Rightarrow> (Cut, w2, ls2)))"

subsection \<open>mapChannelConnections\<close>

datatype run_outcome = Completed | Interrupted | Fatal js_error

text \<open>The answers the workspace API will give, per method, in the order of the calls.\<close>

record api_script =
  list_script :: "list_response list"
  history_script :: "history_response list"
  join_script :: "bool list"

text \<open>\<open>checkpoint.lastChannelIndex\<close>: \<open>undefined\<close> (\<open>None\<close>) on a value without that
  property, a \<open>TypeError\<close> on \<open>null\<close>.\<close>

fun read_lastChannelIndex :: "checkpoint_value \<Rightarrow> js_error + int option" where
  "read_lastChannelIndex Sentinel = Inr (Some (- 1))"
| "read_lastChannelIndex (Parsed (JsonCheckpoint c)) = Inr (Some (lastChannelIndex c))"
| "read_lastChannelIndex (Parsed JsonOther) = Inr None"
| "read_lastChannelIndex (Parsed JsonNull) = Inl TypeError"

text \<open>\<open>checkpoint.lastChannelIndex + 1\<close>; \<open>undefined + 1\<close> is \<open>NaN\<close> (\<open>None\<close>).\<close>

definition start_index :: "int option \<Rightarrow> int option" where
  "start_index idx = map_option (\<lambda>n. n + 1) idx"

text \<open>The body of the \<open>for\<close> loop, for the channels from index \<open>i\<close> on.\<close>

fun scan_channels ::
  "env \<Rightarrow> string js_map \<Rightarrow> int \<Rightarrow> Channel list \<Rightarrow> world \<Rightarrow> history_response list \<Rightarrow> bool list
     \<Rightarrow> run_outcome \<times> world \<times> history_response list \<times> bool list" where
  "scan_channels e channelNames i [] w hs js = (Completed, w, hs, js)"
| "scan_channels e channelNames i (channel # rest) w hs js =
     (case scanChannelMessages e channelNames (channel_id channel) (channel_name channel) i w hs js of
        (ScanInterrupted, w1, hs1, js1) \<Rightarrow> (Interrupted, w1, hs1, js1)
      | (ScanReturned, w1, hs1, js1) \<Rightarrow>
          scan_channels e channelNames (i + 1) rest
            (saveCheckpoint e i (channel_id channel) 0 w1) hs1 js1)"

text \<open>
  \<open>for (let i = startIndex; i < channels.length; i++)\<close>.  With \<open>NaN\<close> the test fails at once.
  With a negative index \<open>channels[i]\<close> is \<open>undefined\<close> and \<open>channel.id\<close> throws.
\<close>

definition scan_from ::
  "env \<Rightarrow> string js_map \<Rightarrow> int option \<Rightarrow> Channel list \<Rightarrow> world \<Rightarrow> history_response list
     \<Rightarrow> bool list \<Rightarrow> run_outcome \<times> world \<times> history_response list \<times> bool list" where
  "scan_from e channelNames startIndex chans w hs js =
     (case startIndex of
        None \<Rightarrow> (Completed, w, hs, js)
      | Some i \<Rightarrow>
          if i < int (length chans) then
            if i < 0 then (Fatal TypeError, w, hs, js)
            else scan_channels e channelNames i (drop (nat i) chans) w hs js
          else (Completed, w, hs, js))"

text \<open>
  The metadata object.  \<open>metadata.channels\<close> is a plain object filled by
  \<open>metadata.channels[channel.id] = {id, name}\<close>: a later channel with the same id replaces
  the earlier one.  It is kept as the map from its keys to its values; the order in which
  \<open>JSON.stringify\<close> lists the keys is not part of it.
\<close>

definition build_metadata :: "env \<Rightarrow> Channel list \<Rightarrow> Metadata" where
  "build_metadata e chans =
     \<lparr>workspace = ''Hack Club'', generatedAt = now e, md_totalChannels = length chans,
      processingTimeSeconds = elapsed e, outputFile = ''channel-links.jsonl'',
      md_channels = foldl (\<lambda>m c. m(channel_id c \<mapsto> c)) Map.empty chans\<rparr>"

definition mapChannelConnections ::
  "env \<Rightarrow> world \<Rightarrow> api_script \<Rightarrow> run_outcome \<times> world \<times> api_script" where
  "mapChannelConnections e w script =
     (case loadCheckpoint e w of
        Inl err \<Rightarrow> (Fatal err, w, script)
      | Inr checkpoint \<Rightarrow>
          (case getAllChannels e w (list_script script) of
             (Cut, w1, ls1) \<Rightarrow> (Interrupted, w1, script\<lparr>list_script := ls1\<rparr>)
           | (Failed err, w1, ls1) \<Rightarrow> (Fatal err, w1, script\<lparr>list_script := ls1\<rparr>)
           | (Done chans, w1, ls1) \<Rightarrow>
               (let channelNames = foldl (\<lambda>m c. map_set m (channel_id c) (channel_name c)) [] chans
                in case read_lastChannelIndex checkpoint of
                     Inl err \<Rightarrow> (Fatal err, w1, script\<lparr>list_script := ls1\<rparr>)
                   | Inr idx \<Rightarrow>
                       (case scan_from e channelNames (start_index idx) chans w1
                               (history_script script) (join_script script) of
                          (Completed, w2, hs2, js2) \<Rightarrow>
                            (Completed,
                             (if \<not> DEBUG e
                              then clearCheckpoint (w2\<lparr>metadata_file := Some (build_metadata e chans)\<rparr>)
                              else w2\<lparr>console := console w2 @
                                        [LogText ''[DEBUG] Debug mode complete - no files written'']\<rparr>),
                             \<lparr>list_script = ls1, history_script = hs2, join_script = js2\<rparr>)
                        | (outcome, w2, hs2, js2) \<Rightarrow>
                            (outcome, w2,
                             \<lparr>list_script = ls1, history_script = hs2, join_script = js2\<rparr>)))))"

subsection \<open>Values for the examples\<close>

definition empty_world :: world where
  "empty_world = \<lparr>output_file = None, checkpoint_file = Absent, cache_file = Absent,
                  metadata_file = None, console = [], api_calls = []\<rparr>"

definition test_env :: "bool \<Rightarrow> env" where
  "test_env d = \<lparr>DEBUG = d, CLEAR_CHANNEL_CACHE = False, now = ''now'', elapsed = ''0.00'',
                 toISOString = (\<lambda>ts. Some (''date:'' @ ts))\<rparr>"

definition chan :: "string \<Rightarrow> Channel" where
  "chan c = \<lparr>channel_id = c, channel_name = ''n'' @ c\<rparr>"

definition msg :: "string \<Rightarrow> string \<Rightarrow> Message" where
  "msg ts t = \<lparr>msg_text = Some t, msg_ts = ts\<rparr>"

section \<open>The edge record codec\<close>

text \<open>
  A record is written with \<open>JSON.stringify(conn)\<close> and read back with \<open>JSON.parse(line)\<close>.
  Both are modelled on the texts the claim is about: objects whose members are strings.
  Strings are lists of 8-bit characters here, as everywhere in this theory.
\<close>

subsection \<open>JSON.stringify of a record\<close>

definition dquote :: char where "dquote = CHR 0x22"
definition backslash :: char where "backslash = CHR 0x5C"

definition hexdigit :: "nat \<Rightarrow> char" where
  "hexdigit n = ''0123456789abcdef'' ! n"

text \<open>\<open>QuoteJSONString\<close>, one character: the quote and the backslash are escaped, the
  control characters are written \<open>\b\<close>, \<open>\t\<close>, \<open>\n\<close>, \<open>\f\<close>, \<open>\r\<close> or \<open>\u00XX\<close> with lower-case
  digits, every other character stands for itself.\<close>

definition quote_char :: "char \<Rightarrow> string" where
  "quote_char c =
     (if c = dquote then [backslash, dquote]
      else if c = backslash then [backslash, backslash]
      else if c = CHR 0x08 then [backslash, CHR ''b'']
      else if c = CHR 0x09 then [backslash, CHR ''t'']
      else if c = CHR 0x0A then [backslash, CHR ''n'']
      else if c = CHR 0x0C then [backslash, CHR ''f'']
      else if c = CHR 0x0D then [backslash, CHR ''r'']
      else if (of_char c :: nat) < 32
      then [backslash, CHR ''u'', CHR ''0'', CHR ''0'',
            hexdigit ((of_char c :: nat) div 16), hexdigit ((of_char c :: nat) mod 16)]
      else [c])"

definition json_quote :: "string \<Rightarrow> string" where
  "json_quote s = dquote # concat (map quote_char s) @ [dquote]"

definition json_member :: "string \<Rightarrow> string \<Rightarrow> string" where
  "json_member k v = json_quote k @ CHR '':'' # json_quote v"

text \<open>The properties are written in the order in which the scanner's object literal
  creates them.\<close>

definition stringify_record :: "EdgeRecord \<Rightarrow> string" where
  "stringify_record conn =
     CHR ''{'' # json_member ''from'' (from conn) @
     CHR '','' # json_member ''to'' (to conn) @
     CHR '','' # json_member ''fromName'' (fromName conn) @
     CHR '','' # json_member ''toName'' (toName conn) @
     CHR '','' # json_member ''messageTs'' (messageTs conn) @
     CHR '','' # json_member ''messageDate'' (messageDate conn) @
     CHR '','' # json_member ''messageLink'' (messageLink conn) @ [CHR ''}'']"

subsection \<open>JSON.parse of an object of strings\<close>

text \<open>\<open>NotModelled\<close>: the text leaves the fragment that is modelled (a value that is not
  a string, a top-level value that is not an object, a \<open>\u\<close> escape above \<open>00FF\<close>).\<close>

datatype 'a parse_result = Success 'a | SyntaxFailure | NotModelled

definition is_ws :: "char \<Rightarrow> bool" where
  "is_ws c \<longleftrightarrow> c = CHR '' '' \<or> c = CHR 0x09 \<or> c = CHR 0x0A \<or> c = CHR 0x0D"

definition skip_ws :: "string \<Rightarrow> string" where
  "skip_ws s = dropWhile is_ws s"

definition hexval :: "char \<Rightarrow> nat option" where
  "hexval c =
     (let n = (of_char c :: nat) in
      if 48 \<le> n \<and> n \<le> 57 then Some (n - 48)
      else if 97 \<le> n \<and> n \<le> 102 then Some (n - 87)
      else if 65 \<le> n \<and> n \<le> 70 then Some (n - 55)
      else None)"

definition unescape :: "char \<Rightarrow> char option" where
  "unescape c =
     (if c = dquote then Some dquote
      else if c = backslash then Some backslash
      else if c = CHR ''/'' then Some (CHR ''/'')
      else if c = CHR ''b'' then Some (CHR 0x08)
      else if c = CHR ''f'' then Some (CHR 0x0C)
      else if c = CHR ''n'' then Some (CHR 0x0A)
      else if c = CHR ''r'' then Some (CHR 0x0D)
      else if c = CHR ''t'' then Some (CHR 0x09)
      else None)"

fun cons_char :: "char \<Rightarrow> (string \<times> string) parse_result \<Rightarrow> (string \<times> string) parse_result"
  where
  "cons_char c (Success (s, rest)) = Success (c # s, rest)"
| "cons_char c SyntaxFailure = SyntaxFailure"
| "cons_char c NotModelled = NotModelled"

text \<open>The characters of a string after its opening quote, up to the closing quote; the
  result is the string and the text after it.\<close>

fun parse_chars :: "string \<Rightarrow> (string \<times> string) parse_result" where
  "parse_chars [] = SyntaxFailure"
| "parse_chars (c # s) =
     (if c = dquote then Success ([], s)
      else if c = backslash then
        (case s of
           [] \<Rightarrow> SyntaxFailure
         | e # s1 \<Rightarrow>
             if e = CHR ''u'' then
               (case s1 of
                  h1 # h2 # h3 # h4 # s2 \<Rightarrow>
                    (case (hexval h1, hexval h2, hexval h3, hexval h4) of
                       (Some x1, Some x2, Some x3, Some x4) \<Rightarrow>
                         (let code = ((x1 * 16 + x2) * 16 + x3) * 16 + x4 in
                          if code < 256 then cons_char (char_of code) (parse_chars s2)
                          else NotModelled)
                     | _ \<Rightarrow> SyntaxFailure)
                | _ \<Rightarrow> SyntaxFailure)
             else
               (case unescape e of
                  None \<Rightarrow> SyntaxFailure
                | Some ch \<Rightarrow> cons_char ch (parse_chars s1)))
      else if (of_char c :: nat) < 32 then SyntaxFailure
      else cons_char c (parse_chars s))"

lemma cons_char_Success:
  "cons_char c p = Success (x, r) \<Longrightarrow> \<exists>y. p = Success (y, r) \<and> x = c # y"
  by (cases p) auto

lemma parse_chars_shorter: "parse_chars s = Success (x, rest) \<Longrightarrow> length rest < length s"
proof (induction s arbitrary: x rule: length_induct)
  case (1 s)
  note IH = "1.IH" [rule_format]
  from "1.prems" obtain c s0 where s: "s = c # s0" by (cases s) auto
  show ?case
  proof (cases "c = dquote")
    case True
    with "1.prems" s show ?thesis by simp
  next
    case nq: False
    show ?thesis
    proof (cases "c = backslash")
      case False
      with nq s "1.prems" have lit: "cons_char c (parse_chars s0) = Success (x, rest)"
        by (simp split: if_splits)
      obtain y where "parse_chars s0 = Success (y, rest)"
        using cons_char_Success [OF lit] by blast
      from IH [OF _ this] s show ?thesis by simp
    next
      case bs: True
      with nq s "1.prems" obtain e s1 where s0: "s0 = e # s1"
        by (cases s0) auto
      show ?thesis
      proof (cases "e = CHR ''u''")
        case False
        with nq bs s s0 "1.prems" obtain ch where
          r: "cons_char ch (parse_chars s1) = Success (x, rest)"
          by (auto split: option.splits)
        obtain y where "parse_chars s1 = Success (y, rest)"
          using cons_char_Success [OF r] by blast
        from IH [OF _ this] s s0 show ?thesis by simp
      next
        case True
        with nq bs s s0 "1.prems" obtain h1 h2 h3 h4 s2 where s1: "s1 = h1 # h2 # h3 # h4 # s2"
          by (auto split: list.splits)
        with True nq bs s s0 "1.prems" obtain ch where
          r: "cons_char ch (parse_chars s2) = Success (x, rest)"
          by (auto simp: Let_def split: option.splits if_splits)
        obtain y where y: "parse_chars s2 = Success (y, rest)"
          using cons_char_Success [OF r] by blast
        from IH [OF _ this] s s0 s1 show ?thesis by simp
      qed
    qed
  qed
qed


lemma skip_ws_length: "length (skip_ws s) \<le> length s"
  by (simp add: skip_ws_def length_dropWhile_le)

text \<open>The members of an object, from the opening quote of a key to the closing brace,
  which must end the text but for white space.\<close>

function parse_members :: "string \<Rightarrow> (string \<times> string) list parse_result" where
  "parse_members [] = SyntaxFailure"
| "parse_members (c # s) =
     (if c \<noteq> dquote then SyntaxFailure
      else case parse_chars s of
        SyntaxFailure \<Rightarrow> SyntaxFailure
      | NotModelled \<Rightarrow> NotModelled
      | Success (k, s1) \<Rightarrow>
          (case skip_ws s1 of
             [] \<Rightarrow> SyntaxFailure
           | colon # s2 \<Rightarrow>
               if colon \<noteq> CHR '':'' then SyntaxFailure
               else case skip_ws s2 of
                 [] \<Rightarrow> SyntaxFailure
               | q # s3 \<Rightarrow>
                   if q \<noteq> dquote then NotModelled
                   else case parse_chars s3 of
                     SyntaxFailure \<Rightarrow> SyntaxFailure
                   | NotModelled \<Rightarrow> NotModelled
                   | Success (v, s4) \<Rightarrow>
                       (case skip_ws s4 of
                          [] \<Rightarrow> SyntaxFailure
                        | d # s5 \<Rightarrow>
                            if d = CHR '','' then
                              (case parse_members (skip_ws s5) of
                                 Success ms \<Rightarrow> Success ((k, v) # ms)
                               | SyntaxFailure \<Rightarrow> SyntaxFailure
                               | NotModelled \<Rightarrow> NotModelled)
                            else if d = CHR ''}'' then
                              (if skip_ws s5 = [] then Success [(k, v)] else SyntaxFailure)
                            else SyntaxFailure)))"
  by pat_completeness auto

termination
proof (relation "measure length")
  show "wf (measure length)" by simp
next
  fix c :: char and s s1 s2 s3 s4 s5 k v :: string and colon q d :: char
    and x y :: "string \<times> string"
  assume "parse_chars s = Success x" and "(k, s1) = x" and "skip_ws s1 = colon # s2"
    and "skip_ws s2 = q # s3" and "parse_chars s3 = Success y" and "(v, s4) = y"
    and "skip_ws s4 = d # s5"
  then have 1: "length s1 < length s" and 2: "length s4 < length s3"
    and 3: "length (colon # s2) \<le> length s1" and 4: "length (q # s3) \<le> length s2"
    and 5: "length (d # s5) \<le> length s4"
    using parse_chars_shorter [of s k s1] parse_chars_shorter [of s3 v s4]
      skip_ws_length [of s1] skip_ws_length [of s2] skip_ws_length [of s4]
    by auto
  from skip_ws_length [of s5] 1 2 3 4 5
  show "(skip_ws s5, c # s) \<in> measure length" by simp
qed

text \<open>\<open>JSON.parse\<close> on an object of strings, as the list of its members in the order of
  the text.\<close>

definition parse_object :: "string \<Rightarrow> (string \<times> string) list parse_result" where
  "parse_object s =
     (case skip_ws s of
        [] \<Rightarrow> SyntaxFailure
      | c # s1 \<Rightarrow>
          if c \<noteq> CHR ''{'' then NotModelled
          else case skip_ws s1 of
            [] \<Rightarrow> SyntaxFailure
          | d # s2 \<Rightarrow>
              if d = CHR ''}'' then (if skip_ws s2 = [] then Success [] else SyntaxFailure)
              else parse_members (d # s2))"

text \<open>A property of the parsed object: the last member with that key.\<close>

definition property :: "(string \<times> string) list \<Rightarrow> string \<Rightarrow> string option" where
  "property members k = map_of (rev members) k"

text \<open>The line as the loader uses it: \<open>conn.from\<close>, \<open>conn.to\<close>, and so on.  A missing
  property is \<open>undefined\<close>, which the record type cannot hold.\<close>

definition parse_record :: "string \<Rightarrow> EdgeRecord parse_result" where
  "parse_record line =
     (case parse_object line of
        SyntaxFailure \<Rightarrow> SyntaxFailure
      | NotModelled \<Rightarrow> NotModelled
      | Success ms \<Rightarrow>
          (case (property ms ''from'', property ms ''to'', property ms ''fromName'',
                 property ms ''toName'', property ms ''messageTs'', property ms ''messageDate'',
                 property ms ''messageLink'') of
             (Some f, Some t, Some fn, Some tn, Some ts, Some md, Some ml) \<Rightarrow>
               Success \<lparr>from = f, to = t, fromName = fn, toName = tn, messageTs = ts,
                        messageDate = md, messageLink = ml\<rparr>
           | _ \<Rightarrow> NotModelled))"

section \<open>Properties of the path queries\<close>

definition succs :: "ChannelGraph \<Rightarrow> string \<Rightarrow> string list" where
  "succs g u = (case map_get (channels g) u of None \<Rightarrow> [] | Some cd \<Rightarrow> map conn_to (connections cd))"

fun is_path :: "ChannelGraph \<Rightarrow> string list \<Rightarrow> bool" where
  "is_path g [] = False"
| "is_path g [v] = True"
| "is_path g (u # v # p) = (v \<in> set (succs g u) \<and> is_path g (v # p))"

definition path_from_to :: "ChannelGraph \<Rightarrow> string \<Rightarrow> string \<Rightarrow> string list \<Rightarrow> bool" where
  "path_from_to g a b p = (is_path g p \<and> hd p = a \<and> last p = b)"

definition hops :: "string list \<Rightarrow> nat" where
  "hops p = length p - 1"

lemma map_of_map_set: "map_of (map_set m k v) = (map_of m)(k \<mapsto> v)"
  by (induction m) (auto simp: fun_eq_iff)

lemma keys_map_set: "fst ` set (map_set m k v) = insert k (fst ` set m)"
  by (simp add: dom_map_of_conv_image_fst [symmetric] map_of_map_set)

lemma values_map_set: "snd ` set (map_set m k v) \<subseteq> insert v (snd ` set m)"
proof (induction m)
  case Nil
  show ?case by simp
next
  case (Cons kv m)
  obtain k' v' where kv: "kv = (k', v')" by (cases kv)
  show ?case
  proof (cases "k' = k")
    case True
    with kv show ?thesis by auto
  next
    case False
    with kv Cons.IH show ?thesis by auto
  qed
qed

lemma map_has_iff: "map_has m k \<longleftrightarrow> k \<in> fst ` set m"
  by (simp add: map_has_def map_of_eq_None_iff)

lemma targets_map_set:
  "targets (g\<lparr>channels := map_set (channels g) k cd\<rparr>)
     \<subseteq> conn_to ` set (connections cd) \<union> targets g"
  using values_map_set [of "channels g" k cd] unfolding targets_def by fastforce

definition closed_graph :: "ChannelGraph \<Rightarrow> bool" where
  "closed_graph g = (\<forall>w \<in> targets g. map_has (channels g) w)"

lemma targets_nameToId [simp]: "targets (g\<lparr>nameToId := n\<rparr>) = targets g"
  by (simp add: targets_def)

lemma closed_graph_nameToId [simp]: "closed_graph (g\<lparr>nameToId := n\<rparr>) = closed_graph g"
  by (simp add: closed_graph_def)

lemma closed_graph_add_channel:
  assumes "closed_graph g"
  shows "closed_graph (g\<lparr>channels := map_set (channels g) k \<lparr>name = n, connections = []\<rparr>\<rparr>)"
  using assms targets_map_set [of g k "\<lparr>name = n, connections = []\<rparr>"]
  unfolding closed_graph_def by (auto simp: map_has_iff keys_map_set)

lemma closed_graph_addConnection:
  assumes "closed_graph g"
  shows "closed_graph (addConnection g fromId toId fName tName mLink mDate)"
proof -
  define g1 where "g1 = (if \<not> map_has (channels g) fromId
                then g\<lparr>channels := map_set (channels g) fromId \<lparr>name = fName, connections = []\<rparr>,
                       nameToId := map_set (nameToId g) (toLowerCase fName) fromId\<rparr>
                else g)"
  define g2 where "g2 = (if \<not> map_has (channels g1) toId
                then g1\<lparr>channels := map_set (channels g1) toId \<lparr>name = tName, connections = []\<rparr>,
                        nameToId := map_set (nameToId g1) (toLowerCase tName) toId\<rparr>
                else g1)"
  have c1: "closed_graph g1"
  proof (cases "map_has (channels g) fromId")
    case True
    with assms show ?thesis by (simp add: g1_def)
  next
    case False
    with closed_graph_add_channel [OF assms, of fromId fName]
    show ?thesis by (simp add: g1_def)
  qed
  have c2: "closed_graph g2"
  proof (cases "map_has (channels g1) toId")
    case True
    with c1 show ?thesis by (simp add: g2_def)
  next
    case False
    with closed_graph_add_channel [OF c1, of toId tName]
    show ?thesis by (simp add: g2_def)
  qed
  have t2: "map_has (channels g2) toId"
    by (auto simp: g2_def map_has_iff keys_map_set)
  have r: "addConnection g fromId toId fName tName mLink mDate =
    (case map_get (channels g2) fromId of
           None \<Rightarrow> g2
         | Some cd \<Rightarrow>
             g2\<lparr>channels := map_set (channels g2) fromId
                   (cd\<lparr>connections := connections cd @
                        [\<lparr>conn_to = toId, conn_messageLink = mLink, conn_messageDate = mDate\<rparr>]\<rparr>)\<rparr>)"
    unfolding addConnection_def Let_def g2_def g1_def by (rule refl)
  show ?thesis
  proof (cases "map_get (channels g2) fromId")
    case None
    with r c2 show ?thesis by simp
  next
    case (Some cd)
    let ?cd = "cd\<lparr>connections := connections cd @
                        [\<lparr>conn_to = toId, conn_messageLink = mLink, conn_messageDate = mDate\<rparr>]\<rparr>"
    have "conn_to ` set (connections ?cd) \<subseteq> insert toId (targets g2)"
      using map_get_targets [OF Some] by auto
    with targets_map_set [of g2 fromId ?cd]
    have "targets (g2\<lparr>channels := map_set (channels g2) fromId ?cd\<rparr>) \<subseteq> insert toId (targets g2)"
      by blast
    with c2 t2 have "closed_graph (g2\<lparr>channels := map_set (channels g2) fromId ?cd\<rparr>)"
      unfolding closed_graph_def by (auto simp: map_has_iff keys_map_set)
    with r Some show ?thesis by simp
  qed
qed

lemma closed_graph_foldl:
  "closed_graph g \<Longrightarrow>
   closed_graph (foldl (\<lambda>graph conn. addConnection graph (from conn) (to conn) (fromName conn)
                     (toName conn) (messageLink conn) (messageDate conn)) g conns)"
  by (induction conns arbitrary: g) (simp_all add: closed_graph_addConnection)

lemma closed_graph_loadData: "closed_graph (loadData_records conns)"
  unfolding loadData_records_def
  by (rule closed_graph_foldl) (simp add: closed_graph_def new_ChannelGraph_def targets_def)

lemma findPath_loop_no_target:
  "endId \<notin> targets g \<Longrightarrow> findPath_loop g endId maxHops queue visited = None"
proof (induction g endId maxHops queue visited rule: findPath_loop.induct)
  case (1 g endId maxHops visited)
  show ?case by simp
next
  case (2 g endId maxHops p queue visited)
  show ?case
  proof (cases "enat (length p) > maxHops")
    case True
    with 2 show ?thesis by simp
  next
    case nb: False
    show ?thesis
    proof (cases "current_data g p")
      case None
      with nb 2 show ?thesis by simp
    next
      case (Some cd)
      then have mg: "map_get (channels g) (last p) = Some cd"
        by (simp add: current_data_def split: if_splits)
      show ?thesis
      proof (cases "findPath_expand endId p (connections cd) visited queue")
        case (Inl full)
        from findPath_expand_Inl [OF Inl] map_get_targets [OF mg] "2.prems"
        show ?thesis by blast
      next
        case (Inr vq)
        obtain v' q' where vq: "vq = (v', q')" by (cases vq)
        from "2.IH"(3) [OF nb Some Inr vq [symmetric] "2.prems"] nb Some Inr vq
        show ?thesis by simp
      qed
    qed
  qed
qed

text \<open>
  Claim C10.  \<open>findPath(a, a)\<close> returns the zero-hop result \<open>{path: [a], links: []}\<close>
  for every graph, every identifier \<open>a\<close> (known to the graph or not) and every bound:
  the test \<open>startId === endId\<close> comes before any look-up.  For distinct endpoints of
  which one is unknown to a loaded graph, the search returns not-found.
\<close>

theorem findPath_same_or_unknown:
  "findPath g a a maxHops = Some \<lparr>path = [a], links = []\<rparr> \<and>
   (a \<noteq> b \<and> (\<not> map_has (channels (loadData_records conns)) a \<or>
               \<not> map_has (channels (loadData_records conns)) b)
      \<longrightarrow> findPath (loadData_records conns) a b maxHops = None)"
proof (intro conjI impI)
  show "findPath g a a maxHops = Some \<lparr>path = [a], links = []\<rparr>"
    by (simp add: findPath_def)
next
  let ?g = "loadData_records conns"
  assume h: "a \<noteq> b \<and> (\<not> map_has (channels ?g) a \<or> \<not> map_has (channels ?g) b)"
  then consider "\<not> map_has (channels ?g) a" | "\<not> map_has (channels ?g) b" by blast
  then have "findPath_loop ?g b maxHops [[a]] [a] = None"
  proof cases
    case 1
    then have "current_data ?g [a] = None"
      by (simp add: current_data_def map_has_def map_get_def)
    then show ?thesis by simp
  next
    case 2
    with closed_graph_loadData [of conns] have "b \<notin> targets ?g"
      unfolding closed_graph_def by blast
    then show ?thesis by (rule findPath_loop_no_target)
  qed
  with h show "findPath ?g a b maxHops = None" by (simp add: findPath_def)
qed

theorem findPath_same_or_unknown_witness:
  "findPath new_ChannelGraph ''X'' ''X'' \<infinity> = Some \<lparr>path = [''X''], links = []\<rparr> \<and>
   ''X'' \<noteq> ''B'' \<and> \<not> map_has (channels (loadData_records [edge ''A'' ''B''])) ''X'' \<and>
   findPath (loadData_records [edge ''A'' ''B'']) ''X'' ''B'' \<infinity> = None"
proof -
  have 1: "''X'' \<noteq> ''B''" by simp
  have 2: "\<not> map_has (channels (loadData_records [edge ''A'' ''B''])) ''X''" by code_simp
  from findPath_same_or_unknown [of new_ChannelGraph "''X''" \<infinity> "''B''" "[edge ''A'' ''B'']"] 1 2
  show ?thesis by blast
qed

text \<open>
  Claim C1.  On the log \<open>A \<rightarrow> B, B \<rightarrow> C\<close>, \<open>findAllPathsWithinHops(A, 1)\<close>
  has an entry for \<open>C\<close>, with the two-hop path \<open>[A, B, C]\<close>: the loop expands a
  path of \<open>maxHops + 1\<close> nodes, so nodes at distance \<open>maxHops + 1\<close> are recorded too.
\<close>

theorem findAllPathsWithinHops_beyond_bound:
  "map (\<lambda>(k, r). (k, path r))
     (findAllPathsWithinHops (loadData_records [edge ''A'' ''B'', edge ''B'' ''C'']) ''A'' 1)
   = [(''B'', [''A'', ''B'']), (''C'', [''A'', ''B'', ''C''])]"
  by code_simp


subsection \<open>Facts about paths\<close>

lemma is_path_nonempty: "is_path g p \<Longrightarrow> p \<noteq> []"
  by (cases p) auto

lemma is_path_snoc:
  "p \<noteq> [] \<Longrightarrow> is_path g (p @ [w]) \<longleftrightarrow> is_path g p \<and> w \<in> set (succs g (last p))"
proof (induction g p rule: is_path.induct)
  case (1 g)
  then show ?case by simp
next
  case (2 g v)
  show ?case by simp
next
  case (3 g u v p)
  then show ?case by auto
qed

lemma is_path_nth_edge:
  "is_path g p \<Longrightarrow> Suc i < length p \<Longrightarrow> p ! Suc i \<in> set (succs g (p ! i))"
proof (induction g p arbitrary: i rule: is_path.induct)
  case (1 g)
  then show ?case by simp
next
  case (2 g v)
  then show ?case by simp
next
  case (3 g u v p)
  show ?case
  proof (cases i)
    case 0
    with "3.prems" show ?thesis by simp
  next
    case (Suc j)
    with "3.prems" "3.IH" [of j] show ?thesis by simp
  qed
qed

lemma sorted_map_const: "sorted (map (\<lambda>_. c :: nat) xs)"
  by (induction xs) auto

lemma succs_current_data:
  "p \<noteq> [] \<Longrightarrow> succs g (last p) =
     (case current_data g p of None \<Rightarrow> [] | Some cd \<Rightarrow> map conn_to (connections cd))"
  by (simp add: succs_def current_data_def)

subsection \<open>The invariant of the search\<close>

definition inv_sorted :: "string list list \<Rightarrow> bool" where
  "inv_sorted queue \<longleftrightarrow>
     sorted (map length queue) \<and> (\<forall>q \<in> set queue. \<forall>q' \<in> set queue. length q' \<le> length q + 1)"

definition inv_paths :: "ChannelGraph \<Rightarrow> string \<Rightarrow> string list list \<Rightarrow> string list \<Rightarrow> bool" where
  "inv_paths g a queue visited \<longleftrightarrow>
     (\<forall>q \<in> set queue. is_path g q \<and> hd q = a \<and> last q \<in> set visited) \<and>
     distinct (map last queue)"

definition inv_closed :: "ChannelGraph \<Rightarrow> string list list \<Rightarrow> string list \<Rightarrow> bool" where
  "inv_closed g queue visited \<longleftrightarrow>
     (\<forall>v \<in> set visited. v \<notin> last ` set queue \<longrightarrow> set (succs g v) \<subseteq> set visited)"

definition inv_frontier :: "ChannelGraph \<Rightarrow> string \<Rightarrow> string list list \<Rightarrow> string list \<Rightarrow> bool" where
  "inv_frontier g a queue visited \<longleftrightarrow>
     (\<forall>p. is_path g p \<and> hd p = a \<and> last p \<notin> set visited \<longrightarrow>
          (\<exists>q \<in> set queue. \<exists>i < length p. p ! i = last q \<and> length q \<le> i + 1))"

definition bfs_inv ::
  "ChannelGraph \<Rightarrow> string \<Rightarrow> string \<Rightarrow> string list list \<Rightarrow> string list \<Rightarrow> bool" where
  "bfs_inv g a b queue visited \<longleftrightarrow>
     b \<notin> set visited \<and> inv_sorted queue \<and> inv_paths g a queue visited \<and>
     inv_closed g queue visited \<and> inv_frontier g a queue visited"

lemma inv_sorted_head:
  "inv_sorted (p # queue) \<Longrightarrow> q \<in> set queue \<Longrightarrow> length p \<le> length q \<and> length q \<le> length p + 1"
  by (auto simp: inv_sorted_def)

lemma inv_sorted_step:
  assumes "inv_sorted (p # queue)"
  shows "inv_sorted (queue @ map (\<lambda>w. p @ [w]) new)"
proof -
  have b: "\<And>q. q \<in> set queue \<Longrightarrow> length p \<le> length q \<and> length q \<le> length p + 1"
    using inv_sorted_head [OF assms] by blast
  have s: "sorted (map length queue)" using assms by (simp add: inv_sorted_def)
  have "sorted (map length (queue @ map (\<lambda>w. p @ [w]) new))"
    using s b by (auto simp: sorted_append comp_def sorted_map_const)
  moreover have "\<And>q. q \<in> set (queue @ map (\<lambda>w. p @ [w]) new)
                   \<Longrightarrow> length p \<le> length q \<and> length q \<le> length p + 1"
    using b by auto
  then have "\<forall>q \<in> set (queue @ map (\<lambda>w. p @ [w]) new).
             \<forall>q' \<in> set (queue @ map (\<lambda>w. p @ [w]) new). length q' \<le> length q + 1"
    by (meson add_le_mono1 le_trans)
  ultimately show ?thesis by (simp only: inv_sorted_def) 
qed

lemma inv_sorted_step_bound:
  assumes "inv_sorted (p # queue)" and "q \<in> set (queue @ map (\<lambda>w. p @ [w]) new)"
  shows "length q \<le> length p + 1"
  using inv_sorted_head [OF assms(1)] assms(2) by auto

lemma inv_paths_step:
  assumes "inv_paths g a (p # queue) visited"
    and "set new = set (succs g (last p)) - set visited" and "distinct new"
  shows "inv_paths g a (queue @ map (\<lambda>w. p @ [w]) new) (visited @ new)"
proof -
  from assms(1) have p: "is_path g p" "hd p = a"
    and q: "\<And>q. q \<in> set queue \<Longrightarrow> is_path g q \<and> hd q = a \<and> last q \<in> set visited"
    and d: "distinct (map last queue)"
    by (auto simp: inv_paths_def)
  from p have ne: "p \<noteq> []" by (auto dest: is_path_nonempty)
  have "\<And>w. w \<in> set new \<Longrightarrow> is_path g (p @ [w]) \<and> hd (p @ [w]) = a"
    using p ne assms(2) by (simp add: is_path_snoc)
  then have 1: "\<forall>q \<in> set (queue @ map (\<lambda>w. p @ [w]) new).
                  is_path g q \<and> hd q = a \<and> last q \<in> set (visited @ new)"
    using q by auto
  have "map last (queue @ map (\<lambda>w. p @ [w]) new) = map last queue @ new"
    by (simp add: comp_def)
  moreover have "set (map last queue) \<inter> set new = {}"
    using q assms(2) by auto
  ultimately have 2: "distinct (map last (queue @ map (\<lambda>w. p @ [w]) new))"
    using d assms(3) by simp
  from 1 2 show ?thesis by (simp only: inv_paths_def)
qed

lemma inv_closed_step:
  assumes "inv_closed g (p # queue) visited"
    and "set new = set (succs g (last p)) - set visited"
  shows "inv_closed g (queue @ map (\<lambda>w. p @ [w]) new) (visited @ new)"
  unfolding inv_closed_def
proof (intro ballI impI)
  fix v
  assume v: "v \<in> set (visited @ new)"
    and nl: "v \<notin> last ` set (queue @ map (\<lambda>w. p @ [w]) new)"
  have "v \<notin> set new"
  proof
    assume "v \<in> set new"
    then have "last (p @ [v]) \<in> last ` set (queue @ map (\<lambda>w. p @ [w]) new)"
      by (intro imageI) auto
    with nl show False by simp
  qed
  with v have vv: "v \<in> set visited" by simp
  show "set (succs g v) \<subseteq> set (visited @ new)"
  proof (cases "v = last p")
    case True
    with assms(2) show ?thesis by auto
  next
    case False
    with nl have "v \<notin> last ` set (p # queue)" by auto
    with assms(1) vv have "set (succs g v) \<subseteq> set visited"
      unfolding inv_closed_def by blast
    then show ?thesis by auto
  qed
qed

lemma frontier_ahead:
  assumes "is_path g p" and "\<forall>v \<in> V. v \<notin> F \<longrightarrow> set (succs g v) \<subseteq> V" and "last p \<notin> V"
  shows "i < length p \<Longrightarrow> p ! i \<in> V \<Longrightarrow> \<exists>j. i \<le> j \<and> j < length p \<and> p ! j \<in> F"
proof (induction "length p - i" arbitrary: i)
  case 0
  then show ?case by simp
next
  case (Suc n)
  show ?case
  proof (cases "p ! i \<in> F")
    case True
    with Suc.prems show ?thesis by blast
  next
    case False
    from assms(1) have "p \<noteq> []" by (rule is_path_nonempty)
    then have "last p = p ! (length p - 1)" by (rule last_conv_nth)
    with assms(3) Suc.prems have "i \<noteq> length p - 1" by auto
    with Suc.prems have lt: "Suc i < length p" by simp
    from is_path_nth_edge [OF assms(1) lt] have "p ! Suc i \<in> set (succs g (p ! i))" .
    with assms(2) Suc.prems False have "p ! Suc i \<in> V" by blast
    moreover from Suc.hyps lt have "n = length p - Suc i" by simp
    ultimately obtain j where "Suc i \<le> j" "j < length p" "p ! j \<in> F"
      using Suc.hyps(1) [of "Suc i"] lt by blast
    then show ?thesis by (intro exI [of _ j]) simp
  qed
qed

lemma inv_frontier_step:
  assumes s: "inv_sorted (p # queue)" and pa: "inv_paths g a (p # queue) visited"
    and c: "inv_closed g (p # queue) visited" and f: "inv_frontier g a (p # queue) visited"
    and new: "set new = set (succs g (last p)) - set visited"
  shows "inv_frontier g a (queue @ map (\<lambda>w. p @ [w]) new) (visited @ new)"
  unfolding inv_frontier_def
proof (intro allI impI)
  let ?Q = "queue @ map (\<lambda>w. p @ [w]) new"
  fix pth
  assume h: "is_path g pth \<and> hd pth = a \<and> last pth \<notin> set (visited @ new)"
  then have ip: "is_path g pth" and lv: "last pth \<notin> set (visited @ new)" by simp_all
  from h have "is_path g pth \<and> hd pth = a \<and> last pth \<notin> set visited" by simp
  with f obtain q i where q: "q \<in> set (p # queue)" and i: "i < length pth"
    and qi: "pth ! i = last q" and len: "length q \<le> i + 1"
    unfolding inv_frontier_def by blast
  show "\<exists>q \<in> set ?Q. \<exists>i < length pth. pth ! i = last q \<and> length q \<le> i + 1"
  proof (cases "q \<in> set queue")
    case True
    then have "q \<in> set ?Q" by simp
    with i qi len show ?thesis by blast
  next
    case False
    with q have qp: "q = p" by simp
    from pa have "last p \<in> set visited" by (simp add: inv_paths_def)
    with qi qp have vis: "pth ! i \<in> set visited" by simp
    from ip have "pth \<noteq> []" by (rule is_path_nonempty)
    then have "last pth = pth ! (length pth - 1)" by (rule last_conv_nth)
    with lv vis have "i \<noteq> length pth - 1" by auto
    with i have lt: "Suc i < length pth" by simp
    from is_path_nth_edge [OF ip lt] qi qp
    have "pth ! Suc i \<in> set (succs g (last p))" by simp
    with new have nv: "pth ! Suc i \<in> set (visited @ new)" by auto
    have cl: "\<forall>v \<in> set (visited @ new). v \<notin> last ` set ?Q
                \<longrightarrow> set (succs g v) \<subseteq> set (visited @ new)"
      using inv_closed_step [OF c new] unfolding inv_closed_def .
    from frontier_ahead [OF ip cl lv lt nv]
    obtain j where j: "Suc i \<le> j" "j < length pth" "pth ! j \<in> last ` set ?Q" by blast
    then obtain q' where q': "q' \<in> set ?Q" "pth ! j = last q'" by blast
    from inv_sorted_step_bound [OF s q'(1)] len qp j(1) have "length q' \<le> j + 1" by simp
    with q' j(2) show ?thesis by blast
  qed
qed

lemma bfs_inv_step:
  assumes "bfs_inv g a b (p # queue) visited"
    and "b \<notin> set (succs g (last p))"
    and "set new = set (succs g (last p)) - set visited" and "distinct new"
  shows "bfs_inv g a b (queue @ map (\<lambda>w. p @ [w]) new) (visited @ new)"
proof -
  from assms(1) have b: "b \<notin> set visited" and s: "inv_sorted (p # queue)"
    and pa: "inv_paths g a (p # queue) visited" and c: "inv_closed g (p # queue) visited"
    and f: "inv_frontier g a (p # queue) visited"
    by (simp_all add: bfs_inv_def)
  have "b \<notin> set (visited @ new)" using b assms(2,3) by simp
  with inv_sorted_step [OF s, of new] inv_paths_step [OF pa assms(3,4)]
    inv_closed_step [OF c assms(3)] inv_frontier_step [OF s pa c f assms(3)]
  show ?thesis unfolding bfs_inv_def by blast
qed

lemma bfs_inv_initial: "a \<noteq> b \<Longrightarrow> bfs_inv g a b [[a]] [a]"
proof -
  assume ab: "a \<noteq> b"
  have "inv_frontier g a [[a]] [a]"
    unfolding inv_frontier_def
  proof (intro allI impI)
    fix p
    assume h: "is_path g p \<and> hd p = a \<and> last p \<notin> set [a]"
    then have "p \<noteq> []" by (auto dest: is_path_nonempty)
    with h have "0 < length p" "p ! 0 = last [a]" by (simp_all add: hd_conv_nth)
    then show "\<exists>q \<in> set [[a]]. \<exists>i < length p. p ! i = last q \<and> length q \<le> i + 1"
      by (intro bexI [of _ "[a]"] exI [of _ 0]) simp_all
  qed
  with ab show ?thesis
    by (simp add: bfs_inv_def inv_sorted_def inv_paths_def inv_closed_def)
qed

subsection \<open>The unbounded search finds a shortest path\<close>

lemma findPath_loop_correct:
  "bfs_inv g a b queue visited \<Longrightarrow> maxHops = \<infinity> \<Longrightarrow>
     (case findPath_loop g b maxHops queue visited of
        None \<Rightarrow> \<forall>p. \<not> path_from_to g a b p
      | Some r \<Rightarrow> path_from_to g a b (path r) \<and>
                  (\<forall>p. path_from_to g a b p \<longrightarrow> length (path r) \<le> length p))"
proof (induction g b maxHops queue visited rule: findPath_loop.induct)
  case (1 g b maxHops visited)
  from "1.prems"(1) have "b \<notin> set visited" "inv_frontier g a [] visited"
    by (simp_all add: bfs_inv_def)
  then have "\<forall>p. \<not> path_from_to g a b p"
    unfolding inv_frontier_def path_from_to_def by fastforce
  then show ?case by simp
next
  case (2 g b maxHops p queue visited)
  note inv = "2.prems"(1)
  from "2.prems"(2) have nb: "\<not> enat (length p) > maxHops" by simp
  from inv have bv: "b \<notin> set visited" and s: "inv_sorted (p # queue)"
    and pa: "inv_paths g a (p # queue) visited" and f: "inv_frontier g a (p # queue) visited"
    by (simp_all add: bfs_inv_def)
  from pa have ip: "is_path g p" and hp: "hd p = a" by (simp_all add: inv_paths_def)
  from ip have ne: "p \<noteq> []" by (rule is_path_nonempty)
  show ?case
  proof (cases "current_data g p")
    case None
    with succs_current_data [OF ne, of g] have sc: "succs g (last p) = []" by simp
    from bfs_inv_step [OF inv, of "[]"] sc have "bfs_inv g a b queue visited" by simp
    from "2.IH"(2) [OF nb None this "2.prems"(2)] nb None show ?thesis by simp
  next
    case (Some cd)
    with succs_current_data [OF ne, of g]
    have sc: "succs g (last p) = map conn_to (connections cd)" by simp
    show ?thesis
    proof (cases "findPath_expand b p (connections cd) visited queue")
      case (Inl full)
      from findPath_expand_Inl [OF Inl] sc
      have full: "full = p @ [b]" and e: "b \<in> set (succs g (last p))" by simp_all
      from ip e ne hp have pft: "path_from_to g a b full"
        by (simp add: full path_from_to_def is_path_snoc)
      have "length full \<le> length pth" if pp: "path_from_to g a b pth" for pth
      proof -
        from pp bv have "is_path g pth \<and> hd pth = a \<and> last pth \<notin> set visited"
          by (simp add: path_from_to_def)
        with f obtain q i where q: "q \<in> set (p # queue)" and i: "i < length pth"
          and qi: "pth ! i = last q" and len: "length q \<le> i + 1"
          unfolding inv_frontier_def by blast
        from pa q have "last q \<in> set visited" by (auto simp: inv_paths_def)
        with bv qi have nb': "pth ! i \<noteq> b" by auto
        from pp have "pth \<noteq> []" by (auto simp: path_from_to_def dest: is_path_nonempty)
        then have "last pth = pth ! (length pth - 1)" by (rule last_conv_nth)
        with pp nb' have "i \<noteq> length pth - 1" by (auto simp: path_from_to_def)
        with i have "i + 2 \<le> length pth" by simp
        moreover from q inv_sorted_head [OF s] have "length p \<le> length q" by auto
        ultimately show ?thesis using len by (simp add: full)
      qed
      with pft nb Some Inl show ?thesis by simp
    next
      case (Inr vq)
      obtain v' q' where vq: "vq = (v', q')" by (cases vq)
      from findPath_expand_Inr [OF Inr [unfolded vq]] sc obtain new where
        e: "b \<notin> set (succs g (last p))" and v': "v' = visited @ new"
        and q': "q' = queue @ map (\<lambda>w. p @ [w]) new"
        and sn: "set new = set (succs g (last p)) - set visited" and d: "distinct new"
        by auto
      from bfs_inv_step [OF inv e sn d] have "bfs_inv g a b q' v'" by (simp only: v' q')
      from "2.IH"(3) [OF nb Some Inr vq [symmetric] this "2.prems"(2)] nb Some Inr vq
      show ?thesis by simp
    qed
  qed
qed

lemma findPath_shortest_aux:
  "(case findPath g a b \<infinity> of
      None \<Rightarrow> \<forall>p. \<not> path_from_to g a b p
    | Some r \<Rightarrow> path_from_to g a b (path r) \<and>
                (\<forall>p. path_from_to g a b p \<longrightarrow> length (path r) \<le> length p))"
proof (cases "a = b")
  case True
  have "p \<noteq> []" if "path_from_to g a b p" for p
    using that by (auto simp: path_from_to_def dest: is_path_nonempty)
  then have "\<forall>p. path_from_to g a b p \<longrightarrow> Suc 0 \<le> length p"
    by (auto simp: Suc_le_eq)
  with True show ?thesis by (simp add: findPath_def path_from_to_def)
next
  case False
  from findPath_loop_correct [OF bfs_inv_initial [OF False] refl, of g] False
  show ?thesis by (simp add: findPath_def)
qed

text \<open>
  Claim C4.  With the default bound (\<open>Infinity\<close>), \<open>findPath(a, b)\<close> returns not-found
  exactly when the graph has no path from \<open>a\<close> to \<open>b\<close>; otherwise the path it returns
  is a path of the graph from \<open>a\<close> to \<open>b\<close> whose hop count is at most the hop count of
  every path from \<open>a\<close> to \<open>b\<close>.
\<close>

theorem findPath_shortest:
  "(findPath g a b \<infinity> = None \<longleftrightarrow> (\<forall>p. \<not> path_from_to g a b p)) \<and>
   (\<forall>r. findPath g a b \<infinity> = Some r \<longrightarrow>
        path_from_to g a b (path r) \<and>
        (\<forall>p. path_from_to g a b p \<longrightarrow> hops (path r) \<le> hops p))"
proof (cases "findPath g a b \<infinity>")
  case None
  with findPath_shortest_aux [of g a b] show ?thesis by simp
next
  case (Some r)
  with findPath_shortest_aux [of g a b]
  have 1: "path_from_to g a b (path r)"
    and 2: "\<forall>p. path_from_to g a b p \<longrightarrow> length (path r) \<le> length p" by simp_all
  from 2 have "\<forall>p. path_from_to g a b p \<longrightarrow> hops (path r) \<le> hops p"
    by (auto simp: hops_def)
  with 1 Some show ?thesis by auto
qed


theorem findPath_shortest_witness:
  "map_option path
     (findPath (loadData_records [edge ''A'' ''B'', edge ''B'' ''D'', edge ''A'' ''C'', edge ''C'' ''D''])
        ''A'' ''D'' \<infinity>) = Some [''A'', ''B'', ''D''] \<and>
   path_from_to (loadData_records [edge ''A'' ''B'', edge ''B'' ''D'', edge ''A'' ''C'', edge ''C'' ''D''])
     ''A'' ''D'' [''A'', ''C'', ''D''] \<and>
   hops [''A'', ''B'', ''D''] \<le> hops [''A'', ''C'', ''D'']"
proof -
  let ?g = "loadData_records [edge ''A'' ''B'', edge ''B'' ''D'', edge ''A'' ''C'', edge ''C'' ''D'']"
  have e: "map_option path (findPath ?g ''A'' ''D'' \<infinity>) = Some [''A'', ''B'', ''D'']"
    by code_simp
  then obtain r where r: "findPath ?g ''A'' ''D'' \<infinity> = Some r" "path r = [''A'', ''B'', ''D'']"
    by auto
  have p: "path_from_to ?g ''A'' ''D'' [''A'', ''C'', ''D'']" by code_simp
  from findPath_shortest [of ?g "''A''" "''D''"] r p
  have "hops [''A'', ''B'', ''D''] \<le> hops [''A'', ''C'', ''D'']" by metis
  with e p show ?thesis by blast
qed

subsection \<open>The bounded search\<close>

lemma findPath_loop_all_pruned:
  "\<forall>q \<in> set queue. k < length q \<Longrightarrow> findPath_loop g b (enat k) queue visited = None"
  by (induction queue) simp_all

lemma findPath_loop_longer:
  "\<forall>q \<in> set queue. n \<le> length q \<Longrightarrow> findPath_loop g b maxHops queue visited = Some r
     \<Longrightarrow> n < length (path r)"
proof (induction g b maxHops queue visited rule: findPath_loop.induct)
  case (1 g b maxHops visited)
  then show ?case by simp
next
  case (2 g b maxHops p queue visited)
  from "2.prems"(1) have np: "n \<le> length p" and nq: "\<forall>q \<in> set queue. n \<le> length q"
    by simp_all
  show ?case
  proof (cases "enat (length p) > maxHops")
    case True
    with "2.prems"(2) have "findPath_loop g b maxHops queue visited = Some r" by simp
    from "2.IH"(1) [OF True nq this] show ?thesis .
  next
    case nb: False
    show ?thesis
    proof (cases "current_data g p")
      case None
      with nb "2.prems"(2) have "findPath_loop g b maxHops queue visited = Some r" by simp
      from "2.IH"(2) [OF nb None nq this] show ?thesis .
    next
      case (Some cd)
      show ?thesis
      proof (cases "findPath_expand b p (connections cd) visited queue")
        case (Inl full)
        with nb Some "2.prems"(2) have "path r = full" by auto
        with findPath_expand_Inl [OF Inl] np show ?thesis by simp
      next
        case (Inr vq)
        obtain v' q' where vq: "vq = (v', q')" by (cases vq)
        from findPath_expand_Inr [OF Inr [unfolded vq]] obtain new where
          q': "q' = queue @ map (\<lambda>w. p @ [w]) new" by blast
        with np nq have all: "\<forall>q \<in> set q'. n \<le> length q" by auto
        from nb Some Inr vq "2.prems"(2)
        have "findPath_loop g b maxHops q' v' = Some r" by simp
        from "2.IH"(3) [OF nb Some Inr vq [symmetric] all this] show ?thesis .
      qed
    qed
  qed
qed

lemma findPath_loop_bounded:
  "inv_sorted queue \<Longrightarrow> maxHops = \<infinity> \<Longrightarrow>
     findPath_loop g b (enat k) queue visited =
       (case findPath_loop g b maxHops queue visited of
          None \<Rightarrow> None
        | Some r \<Rightarrow> if length (path r) \<le> k + 1 then Some r else None)"
proof (induction g b maxHops queue visited rule: findPath_loop.induct)
  case (1 g b maxHops visited)
  show ?case by simp
next
  case (2 g b maxHops p queue visited)
  note s = "2.prems"(1)
  from "2.prems"(2) have nb: "\<not> enat (length p) > maxHops" by simp
  from inv_sorted_step [OF s, of "[]"] have sq: "inv_sorted queue" by simp
  show ?case
  proof (cases "k < length p")
    case True
    have "k < length q" if "q \<in> set queue" for q
      using inv_sorted_head [OF s that] True by simp
    with True have "\<forall>q \<in> set (p # queue). k < length q" by simp
    then have l: "findPath_loop g b (enat k) (p # queue) visited = None"
      by (rule findPath_loop_all_pruned)
    show ?thesis
    proof (cases "findPath_loop g b maxHops (p # queue) visited")
      case None
      with l show ?thesis by simp
    next
      case (Some r)
      have "length p \<le> length q" if "q \<in> set queue" for q
        using inv_sorted_head [OF s that] by simp
      then have "\<forall>q \<in> set (p # queue). length p \<le> length q" by simp
      from findPath_loop_longer [OF this Some] True l Some show ?thesis by simp
    qed
  next
    case False
    then have nk: "\<not> enat (length p) > enat k" by simp
    show ?thesis
    proof (cases "current_data g p")
      case None
      from "2.IH"(2) [OF nb None sq "2.prems"(2)] nb nk None show ?thesis by simp
    next
      case (Some cd)
      show ?thesis
      proof (cases "findPath_expand b p (connections cd) visited queue")
        case (Inl full)
        from findPath_expand_Inl [OF Inl] False have "length full \<le> k + 1" by simp
        with nb nk Some Inl show ?thesis by simp
      next
        case (Inr vq)
        obtain v' q' where vq: "vq = (v', q')" by (cases vq)
        from findPath_expand_Inr [OF Inr [unfolded vq]] obtain new where
          q': "q' = queue @ map (\<lambda>w. p @ [w]) new" by blast
        from inv_sorted_step [OF s, of new] q' have "inv_sorted q'" by simp
        from "2.IH"(3) [OF nb Some Inr vq [symmetric] this "2.prems"(2)] nb nk Some Inr vq
        show ?thesis by simp
      qed
    qed
  qed
qed

lemma findPath_bounded_unbounded:
  "findPath g a b (enat k) =
     (case findPath g a b \<infinity> of
        None \<Rightarrow> None
      | Some r \<Rightarrow> if length (path r) \<le> k + 1 then Some r else None)"
proof (cases "a = b")
  case True
  then show ?thesis by (simp add: findPath_def)
next
  case False
  have "inv_sorted [[a]]" by (simp add: inv_sorted_def)
  from findPath_loop_bounded [OF this refl, of g b k "[a]"] False
  show ?thesis by (simp add: findPath_def)
qed

text \<open>
  Claim C5.  With a bound \<open>k\<close>, \<open>findPath(a, b, k)\<close> returns not-found exactly when
  every path from \<open>a\<close> to \<open>b\<close> has more than \<open>k\<close> hops (in particular when there is
  none), and otherwise returns the very result of the unbounded search.
\<close>

theorem findPath_bounded:
  "(findPath g a b (enat k) = None \<longleftrightarrow> (\<forall>p. path_from_to g a b p \<longrightarrow> k < hops p)) \<and>
   (findPath g a b (enat k) \<noteq> None \<longrightarrow> findPath g a b (enat k) = findPath g a b \<infinity>)"
proof (cases "findPath g a b \<infinity>")
  case None
  with findPath_shortest_aux [of g a b] findPath_bounded_unbounded [of g a b k]
  show ?thesis by simp
next
  case (Some r)
  with findPath_shortest_aux [of g a b]
  have 1: "path_from_to g a b (path r)"
    and 2: "\<forall>p. path_from_to g a b p \<longrightarrow> length (path r) \<le> length p" by simp_all
  from 1 have ne: "path r \<noteq> []" by (auto simp: path_from_to_def dest: is_path_nonempty)
  show ?thesis
  proof (cases "length (path r) \<le> k + 1")
    case True
    with ne have "\<not> k < hops (path r)" by (simp add: hops_def)
    with 1 have "\<not> (\<forall>p. path_from_to g a b p \<longrightarrow> k < hops p)" by blast
    with True Some findPath_bounded_unbounded [of g a b k] show ?thesis by simp
  next
    case False
    have "k < hops p" if "path_from_to g a b p" for p
    proof -
      from 2 that have "length (path r) \<le> length p" by blast
      with False show ?thesis by (simp add: hops_def)
    qed
    with False Some findPath_bounded_unbounded [of g a b k] show ?thesis by simp
  qed
qed

theorem findPath_bounded_witness:
  "findPath (loadData_records [edge ''A'' ''B'', edge ''B'' ''C'']) ''A'' ''C'' (enat 2) \<noteq> None \<and>
   findPath (loadData_records [edge ''A'' ''B'', edge ''B'' ''C'']) ''A'' ''C'' (enat 2)
     = findPath (loadData_records [edge ''A'' ''B'', edge ''B'' ''C'']) ''A'' ''C'' \<infinity> \<and>
   path_from_to (loadData_records [edge ''A'' ''B'', edge ''B'' ''C'']) ''A'' ''C''
     [''A'', ''B'', ''C''] \<and>
   findPath (loadData_records [edge ''A'' ''B'', edge ''B'' ''C'']) ''A'' ''C'' (enat 1) = None \<and>
   1 < hops [''A'', ''B'', ''C'']"
proof -
  let ?g = "loadData_records [edge ''A'' ''B'', edge ''B'' ''C'']"
  have 1: "findPath ?g ''A'' ''C'' (enat 2) \<noteq> None" by code_simp
  have 2: "findPath ?g ''A'' ''C'' (enat 1) = None" by code_simp
  have 3: "path_from_to ?g ''A'' ''C'' [''A'', ''B'', ''C'']" by code_simp
  from findPath_bounded [of ?g "''A''" "''C''" 2] 1
  have 4: "findPath ?g ''A'' ''C'' (enat 2) = findPath ?g ''A'' ''C'' \<infinity>" by blast
  from findPath_bounded [of ?g "''A''" "''C''" 1] 2 3
  have 5: "1 < hops [''A'', ''B'', ''C'']" by blast
  from 1 2 3 4 5 show ?thesis by blast
qed

section \<open>Properties of the crawler\<close>

subsection \<open>Loading the checkpoint\<close>

text \<open>
  Claim C9.  \<open>loadCheckpoint\<close> always returns a value.  When the checkpoint file is
  missing, cannot be read, does not parse, or holds \<open>null\<close>, the value is the sentinel,
  as it is when there is no file at all; its \<open>lastChannelIndex\<close> is \<open>-1\<close>, so the crawl
  starts at index \<open>0\<close>.
\<close>

theorem loadCheckpoint_never_fails:
  "(\<exists>v. loadCheckpoint e w = Inr v) \<and>
   (checkpoint_file w \<in> {Absent, Unreadable, Garbled, Holds JsonNull} \<longrightarrow>
      loadCheckpoint e w = Inr Sentinel \<and>
      loadCheckpoint e w = loadCheckpoint e (w\<lparr>checkpoint_file := Absent\<rparr>) \<and>
      read_lastChannelIndex Sentinel = Inr (Some (- 1)) \<and>
      start_index (Some (- 1)) = Some 0)"
proof (intro conjI impI)
  show "\<exists>v. loadCheckpoint e w = Inr v"
    by (simp add: loadCheckpoint_def split: sum.split)
next
  assume h: "checkpoint_file w \<in> {Absent, Unreadable, Garbled, Holds JsonNull}"
  then have t: "\<exists>err. loadCheckpoint_try w = Inl err"
    by (auto simp: loadCheckpoint_try_def)
  then show s: "loadCheckpoint e w = Inr Sentinel"
    by (auto simp: loadCheckpoint_def)
  have "loadCheckpoint e (w\<lparr>checkpoint_file := Absent\<rparr>) = Inr Sentinel"
    by (simp add: loadCheckpoint_def loadCheckpoint_try_def)
  with s show "loadCheckpoint e w = loadCheckpoint e (w\<lparr>checkpoint_file := Absent\<rparr>)"
    by simp
next
  show "read_lastChannelIndex Sentinel = Inr (Some (- 1))" by simp
next
  show "start_index (Some (- 1)) = Some 0" by (simp add: start_index_def)
qed

theorem loadCheckpoint_never_fails_witness:
  "checkpoint_file (empty_world\<lparr>checkpoint_file := Garbled\<rparr>)
     \<in> {Absent, Unreadable, Garbled, Holds JsonNull} \<and>
   loadCheckpoint (test_env False) (empty_world\<lparr>checkpoint_file := Garbled\<rparr>) = Inr Sentinel \<and>
   start_index (Some (- 1)) = Some 0"
proof -
  have h: "checkpoint_file (empty_world\<lparr>checkpoint_file := Garbled\<rparr>)
             \<in> {Absent, Unreadable, Garbled, Holds JsonNull}" by simp
  from loadCheckpoint_never_fails [of "test_env False" "empty_world\<lparr>checkpoint_file := Garbled\<rparr>"] h
  show ?thesis by blast
qed

subsection \<open>What a crawl adds to the edge log and to the console\<close>

definition log_edges :: "world \<Rightarrow> EdgeRecord list" where
  "log_edges w = (case output_file w of None \<Rightarrow> [] | Some ls \<Rightarrow> ls)"

definition shown_edges :: "world \<Rightarrow> EdgeRecord list" where
  "shown_edges w = concat (map (\<lambda>l. case l of LogEdge r \<Rightarrow> [r] | _ \<Rightarrow> []) (console w))"

text \<open>\<open>adds P w w'\<close>: from \<open>w\<close> to \<open>w'\<close> the edge log and the edge lines of the console
  have only grown, and by records that satisfy \<open>P\<close>.\<close>

definition adds :: "(EdgeRecord \<Rightarrow> bool) \<Rightarrow> world \<Rightarrow> world \<Rightarrow> bool" where
  "adds P w w' \<longleftrightarrow>
     (\<exists>new. log_edges w' = log_edges w @ new \<and> (\<forall>r \<in> set new. P r)) \<and>
     (\<exists>new. shown_edges w' = shown_edges w @ new \<and> (\<forall>r \<in> set new. P r))"

lemma adds_refl: "adds P w w"
  by (simp add: adds_def)

lemma adds_same:
  "log_edges w' = log_edges w \<Longrightarrow> shown_edges w' = shown_edges w \<Longrightarrow> adds P w w'"
  by (simp add: adds_def)

lemma adds_trans:
  assumes "adds P w w'" and "adds P w' w''"
  shows "adds P w w''"
proof -
  from assms obtain n1 n2 m1 m2 where
    1: "log_edges w' = log_edges w @ n1" "\<forall>r \<in> set n1. P r"
    and 2: "log_edges w'' = log_edges w' @ n2" "\<forall>r \<in> set n2. P r"
    and 3: "shown_edges w' = shown_edges w @ m1" "\<forall>r \<in> set m1. P r"
    and 4: "shown_edges w'' = shown_edges w' @ m2" "\<forall>r \<in> set m2. P r"
    unfolding adds_def by blast
  have "log_edges w'' = log_edges w @ (n1 @ n2) \<and> (\<forall>r \<in> set (n1 @ n2). P r)"
    using 1 2 by auto
  moreover have "shown_edges w'' = shown_edges w @ (m1 @ m2) \<and> (\<forall>r \<in> set (m1 @ m2). P r)"
    using 3 4 by auto
  ultimately show ?thesis unfolding adds_def by blast
qed

lemma adds_mono: "adds P w w' \<Longrightarrow> (\<And>r. P r \<Longrightarrow> Q r) \<Longrightarrow> adds Q w w'"
  unfolding adds_def by blast

lemma shown_edges_LogEdge: "shown_edges (w\<lparr>console := console w @ map LogEdge conns\<rparr>) = shown_edges w @ conns"
  by (induction conns rule: rev_induct) (simp_all add: shown_edges_def)

lemma adds_appendConnections:
  "\<forall>r \<in> set conns. P r \<Longrightarrow> adds P w (appendConnections e conns w)"
  by (auto simp: appendConnections_def adds_def log_edges_def shown_edges_LogEdge
           simp: shown_edges_def split: option.splits)

lemma adds_saveCheckpoint: "adds P w (saveCheckpoint e i c n w)"
  by (rule adds_same) (simp_all add: saveCheckpoint_def log_edges_def shown_edges_def)

lemma adds_api_call: "adds P w (w\<lparr>api_calls := a\<rparr>)"
  by (rule adds_same) (simp_all add: log_edges_def shown_edges_def)

lemma adds_LogScan: "adds P w (w\<lparr>console := console w @ [LogScan a b]\<rparr>)"
  by (rule adds_same) (simp_all add: log_edges_def shown_edges_def)

lemma adds_LogText: "adds P w (w\<lparr>console := console w @ [LogText a]\<rparr>)"
  by (rule adds_same) (simp_all add: log_edges_def shown_edges_def)

lemma adds_cache: "adds P w (w\<lparr>cache_file := c\<rparr>)"
  by (rule adds_same) (simp_all add: log_edges_def shown_edges_def)

text \<open>A record of the scan of channel \<open>channelId\<close>: it starts there and ends elsewhere.\<close>

definition edge_of_scan :: "string \<Rightarrow> EdgeRecord \<Rightarrow> bool" where
  "edge_of_scan channelId r \<longleftrightarrow> from r = channelId \<and> to r \<noteq> channelId"

fun result_world :: "scan_result \<Rightarrow> world" where
  "result_world (Ok st w) = w"
| "result_world (Thrown err st w) = w"

fun result_state :: "scan_result \<Rightarrow> scan_state" where
  "result_state (Ok st w) = st"
| "result_state (Thrown err st w) = st"

lemma handle_mentions_edges:
  "\<forall>r \<in> set (pendingWrites st). edge_of_scan channelId r \<Longrightarrow>
   adds (edge_of_scan channelId) w
     (result_world (handle_mentions e channelNames channelId channelName ts ms st w)) \<and>
   (\<forall>r \<in> set (pendingWrites
        (result_state (handle_mentions e channelNames channelId channelName ts ms st w))).
      edge_of_scan channelId r)"
proof (induction ms arbitrary: st w)
  case Nil
  then show ?case by (simp add: adds_refl)
next
  case (Cons m ms)
  show ?case
  proof (cases "m \<noteq> channelId \<and> m \<notin> set (seenLinks st)")
    case False
    with Cons.IH [OF Cons.prems, of w] show ?thesis by auto
  next
    case True
    show ?thesis
    proof (cases "toISOString e ts")
      case None
      with True Cons.prems show ?thesis by (simp add: adds_refl)
    next
      case (Some d)
      let ?c = "make_connection channelNames channelId channelName ts d m"
      let ?st2 = "st\<lparr>seenLinks := seenLinks st @ [m],
                      pendingWrites := pendingWrites st @ [?c],
                      totalLinksFound := totalLinksFound st + 1\<rparr>"
      from True have c: "edge_of_scan channelId ?c"
        by (simp add: edge_of_scan_def make_connection_def)
      with Cons.prems have p2: "\<forall>r \<in> set (pendingWrites ?st2). edge_of_scan channelId r"
        by simp
      show ?thesis
      proof (cases "length (pendingWrites ?st2) \<ge> WRITE_BATCH_SIZE")
        case False
        with True Some Cons.IH [OF p2, of w] show ?thesis by (simp add: Let_def)
      next
        case full: True
        let ?w2 = "appendConnections e (pendingWrites ?st2) w"
        have a: "adds (edge_of_scan channelId) w ?w2"
          using p2 by (rule adds_appendConnections)
        have "\<forall>r \<in> set (pendingWrites (?st2\<lparr>pendingWrites := []\<rparr>)). edge_of_scan channelId r"
          by simp
        from Cons.IH [OF this, of ?w2] a True Some full show ?thesis
          by (auto simp: Let_def intro: adds_trans)
      qed
    qed
  qed
qed

lemma scan_messages_edges:
  "\<forall>r \<in> set (pendingWrites st). edge_of_scan channelId r \<Longrightarrow>
   adds (edge_of_scan channelId) w
     (result_world (scan_messages e channelNames channelId channelName msgs st w)) \<and>
   (\<forall>r \<in> set (pendingWrites
        (result_state (scan_messages e channelNames channelId channelName msgs st w))).
      edge_of_scan channelId r)"
proof (induction msgs arbitrary: st w)
  case Nil
  then show ?case by (simp add: adds_refl)
next
  case (Cons m msgs)
  let ?h = "handle_mentions e channelNames channelId channelName (msg_ts m) (message_mentions m) st w"
  note h = handle_mentions_edges [OF Cons.prems, of w e channelNames channelName "msg_ts m"
      "message_mentions m"]
  show ?case
  proof (cases ?h)
    case (Thrown err st' w')
    with h show ?thesis by simp
  next
    case (Ok st' w')
    with h have a: "adds (edge_of_scan channelId) w w'"
      and p: "\<forall>r \<in> set (pendingWrites (st'\<lparr>messageCount := messageCount st' + 1\<rparr>)).
                edge_of_scan channelId r" by simp_all
    from Cons.IH [OF p, of w'] a Ok show ?thesis
      by (auto intro: adds_trans)
  qed
qed

lemma scan_pass_edges:
  "\<forall>r \<in> set (pendingWrites st). edge_of_scan channelId r \<Longrightarrow>
   scan_pass e channelNames channelId channelName i cursor st w hs = (outcome, st', w', hs') \<Longrightarrow>
   adds (edge_of_scan channelId) w w' \<and> (\<forall>r \<in> set (pendingWrites st'). edge_of_scan channelId r)"
proof (induction hs arbitrary: cursor st w)
  case Nil
  then show ?case by (auto intro: adds_api_call)
next
  case (Cons r hs)
  let ?w1 = "w\<lparr>api_calls := api_calls w @ [HistoryCall channelId cursor]\<rparr>"
  have a1: "adds (edge_of_scan channelId) w ?w1" by (rule adds_api_call)
  show ?case
  proof (cases r)
    case (HistoryError code)
    with Cons.prems a1 show ?thesis by auto
  next
    case (HistoryPage msgs next_cursor)
    note page = HistoryPage
    show ?thesis
    proof (cases "page_dates e (batchCount st + 1) msgs")
      case (Some err)
      with Cons.prems a1 page show ?thesis by auto
    next
      case None
      note HistoryPage = page None
      let ?st1 = "st\<lparr>batchCount := batchCount st + 1\<rparr>"
      let ?s = "scan_messages e channelNames channelId channelName msgs ?st1 ?w1"
      from Cons.prems(1) have p1: "\<forall>r \<in> set (pendingWrites ?st1). edge_of_scan channelId r"
        by simp
      note s = scan_messages_edges [OF p1, of ?w1 e channelNames channelName msgs]
      show ?thesis
      proof (cases ?s)
        case (Thrown err st2 w2)
        with s a1 Cons.prems(2) HistoryPage show ?thesis
          by (auto simp: Let_def intro: adds_trans)
      next
        case (Ok st2 w2)
        with s have a2: "adds (edge_of_scan channelId) ?w1 w2"
          and p2: "\<forall>r \<in> set (pendingWrites st2). edge_of_scan channelId r" by simp_all
        let ?w3 = "if messageCount st2 > 0 \<and> messageCount st2 mod CHECKPOINT_EVERY_N_MESSAGES = 0
                   then saveCheckpoint e i channelId (messageCount st2) w2 else w2"
        have a3: "adds (edge_of_scan channelId) w ?w3"
          using a1 a2 by (auto intro: adds_trans adds_saveCheckpoint)
        show ?thesis
        proof (cases "truthy next_cursor")
          case True
          with Cons.prems(2) HistoryPage Ok
          have "scan_pass e channelNames channelId channelName i next_cursor st2 ?w3 hs
                  = (outcome, st', w', hs')" by (simp add: Let_def)
          from Cons.IH [OF p2 this] a3 show ?thesis by (auto intro: adds_trans)
        next
          case False
          with Cons.prems(2) HistoryPage Ok
          have st': "st' = st2"
            and w': "w' = (if pendingWrites st2 \<noteq> [] then appendConnections e (pendingWrites st2) ?w3
                           else ?w3)" by (auto simp: Let_def)
          from p2 have "adds (edge_of_scan channelId) ?w3 w'"
            unfolding w' by (auto intro: adds_appendConnections adds_refl)
          with a3 p2 st' show ?thesis by (auto intro: adds_trans)
        qed
      qed
    qed
  qed
qed

lemma scanChannelMessages_edges:
  "scanChannelMessages e channelNames channelId channelName i w hs js = (outcome, w', hs', js')
     \<Longrightarrow> adds (edge_of_scan channelId) w w'"
proof (induction js arbitrary: w hs)
  case Nil
  let ?w0 = "w\<lparr>console := console w @ [LogScan channelName channelId]\<rparr>"
  obtain po st w1 hs1 where
    p: "scan_pass e channelNames channelId channelName i None initial_scan_state ?w0 hs
          = (po, st, w1, hs1)" by (metis prod_cases4)
  have "\<forall>r \<in> set (pendingWrites initial_scan_state). edge_of_scan channelId r"
    by (simp add: initial_scan_state_def)
  from scan_pass_edges [OF this p] have a: "adds (edge_of_scan channelId) ?w0 w1" by simp
  have a0: "adds (edge_of_scan channelId) w ?w0" by (rule adds_LogScan)
  have "adds (edge_of_scan channelId) w1 w'"
    using Nil p by (cases po) (auto split: if_splits intro: adds_refl adds_api_call)
  with a0 a show ?case by (blast intro: adds_trans)
next
  case (Cons j js)
  let ?w0 = "w\<lparr>console := console w @ [LogScan channelName channelId]\<rparr>"
  obtain po st w1 hs1 where
    p: "scan_pass e channelNames channelId channelName i None initial_scan_state ?w0 hs
          = (po, st, w1, hs1)" by (metis prod_cases4)
  have "\<forall>r \<in> set (pendingWrites initial_scan_state). edge_of_scan channelId r"
    by (simp add: initial_scan_state_def)
  from scan_pass_edges [OF this p] have a: "adds (edge_of_scan channelId) ?w0 w1" by simp
  have a0: "adds (edge_of_scan channelId) w ?w0" by (rule adds_LogScan)
  let ?w2 = "w1\<lparr>api_calls := api_calls w1 @ [JoinCall channelId]\<rparr>"
  have a2: "adds (edge_of_scan channelId) w1 ?w2" by (rule adds_api_call)
  have "adds (edge_of_scan channelId) w1 w'"
  proof (cases "po = PassThrown (ApiError ''not_in_channel'') \<and> j")
    case True
    with Cons.prems p
    have "scanChannelMessages e channelNames channelId channelName i ?w2 hs1 js
            = (outcome, w', hs', js')" by simp
    from Cons.IH [OF this] a2 show ?thesis by (blast intro: adds_trans)
  next
    case False
    with Cons.prems p a2 show ?thesis
      by (cases po) (auto split: if_splits intro: adds_refl)
  qed
  with a0 a show ?case by (blast intro: adds_trans)
qed


lemma scan_channels_edges:
  "scan_channels e channelNames i chans w hs js = (outcome, w', hs', js')
     \<Longrightarrow> adds (\<lambda>r. from r \<noteq> to r) w w'"
proof (induction chans arbitrary: i w hs js)
  case Nil
  then show ?case by (simp add: adds_refl)
next
  case (Cons c chans)
  obtain so w1 hs1 js1 where
    s: "scanChannelMessages e channelNames (channel_id c) (channel_name c) i w hs js
          = (so, w1, hs1, js1)" by (metis prod_cases4)
  from scanChannelMessages_edges [OF s]
  have a1: "adds (\<lambda>r. from r \<noteq> to r) w w1"
    by (rule adds_mono) (auto simp: edge_of_scan_def)
  show ?case
  proof (cases so)
    case ScanInterrupted
    with Cons.prems s a1 show ?thesis by simp
  next
    case ScanReturned
    let ?w2 = "saveCheckpoint e i (channel_id c) 0 w1"
    from ScanReturned Cons.prems s
    have "scan_channels e channelNames (i + 1) chans ?w2 hs1 js1 = (outcome, w', hs', js')"
      by simp
    from Cons.IH [OF this] a1 adds_saveCheckpoint [of "\<lambda>r. from r \<noteq> to r" w1 e i "channel_id c" 0]
    show ?thesis by (blast intro: adds_trans)
  qed
qed

lemma scan_from_edges:
  "scan_from e channelNames startIndex chans w hs js = (outcome, w', hs', js')
     \<Longrightarrow> adds (\<lambda>r. from r \<noteq> to r) w w'"
  by (auto simp: scan_from_def split: option.splits if_splits
           intro: adds_refl scan_channels_edges)

lemma fetch_channels_edges:
  "fetch_channels cursor acc w ls = (outcome, w', ls') \<Longrightarrow> adds P w w'"
proof (induction ls arbitrary: cursor acc w)
  case Nil
  then show ?case by (auto intro: adds_api_call)
next
  case (Cons r ls)
  let ?w1 = "w\<lparr>api_calls := api_calls w @ [ListCall cursor]\<rparr>"
  have a1: "adds P w ?w1" by (rule adds_api_call)
  show ?case
  proof (cases r)
    case (ListError code)
    with Cons.prems a1 show ?thesis by auto
  next
    case (ListPage chans next_cursor)
    show ?thesis
    proof (cases "truthy next_cursor")
      case True
      with Cons.prems ListPage
      have "fetch_channels next_cursor (acc @ chans) ?w1 ls = (outcome, w', ls')"
        by (simp add: Let_def)
      from Cons.IH [OF this] a1 show ?thesis by (blast intro: adds_trans)
    next
      case False
      with Cons.prems ListPage a1 show ?thesis by (auto simp: Let_def)
    qed
  qed
qed

lemma getAllChannels_edges:
  assumes "getAllChannels e w ls = (outcome, w', ls')"
  shows "adds P w w'"
proof -
  let ?w1 = "if CLEAR_CHANNEL_CACHE e then w\<lparr>cache_file := Absent\<rparr> else w"
  have a1: "adds P w ?w1" by (auto intro: adds_refl adds_cache)
  obtain fo w2 ls2 where f: "fetch_channels None [] ?w1 ls = (fo, w2, ls2)"
    by (metis prod_cases3)
  from fetch_channels_edges [OF f] have a2: "adds P ?w1 w2" .
  have "w' = ?w1 \<or> w' = w2 \<or> (\<exists>c. w' = w2\<lparr>cache_file := c\<rparr>)"
    using assms f
    by (cases fo) (auto simp: getAllChannels_def Let_def split: sum.splits if_splits)
  then have "adds P ?w1 w'"
  proof (elim disjE exE)
    assume "w' = ?w1"
    then show ?thesis by (simp add: adds_refl)
  next
    assume "w' = w2"
    with a2 show ?thesis by simp
  next
    fix c assume "w' = w2\<lparr>cache_file := c\<rparr>"
    with adds_trans [OF a2 adds_cache [of P w2 c]] show ?thesis by simp
  qed
  with a1 show ?thesis by (blast intro: adds_trans)
qed

lemma adds_finish:
  "adds P w (clearCheckpoint (w\<lparr>metadata_file := m\<rparr>))"
  by (rule adds_same) (simp_all add: clearCheckpoint_def log_edges_def shown_edges_def)

lemma mapChannelConnections_Inl:
  "read_lastChannelIndex checkpoint = Inl err \<Longrightarrow> loadCheckpoint e w = Inr checkpoint \<Longrightarrow>
   getAllChannels e w (list_script script) = (Done chans, w1, ls1) \<Longrightarrow>
   mapChannelConnections e w script = (Fatal err, w1, script\<lparr>list_script := ls1\<rparr>)"
  unfolding mapChannelConnections_def by (simp add: Let_def)

lemma mapChannelConnections_scan:
  "read_lastChannelIndex checkpoint = Inr idx \<Longrightarrow> loadCheckpoint e w = Inr checkpoint \<Longrightarrow>
   getAllChannels e w (list_script script) = (Done chans, w1, ls1) \<Longrightarrow>
   scan_from e (foldl (\<lambda>m c. map_set m (channel_id c) (channel_name c)) [] chans)
     (start_index idx) chans w1 (history_script script) (join_script script)
     = (so, w2, hs2, js2) \<Longrightarrow>
   mapChannelConnections e w script =
     (so,
      (if so = Completed
       then if \<not> DEBUG e
            then clearCheckpoint (w2\<lparr>metadata_file := Some (build_metadata e chans)\<rparr>)
            else w2\<lparr>console := console w2 @
                      [LogText ''[DEBUG] Debug mode complete - no files written'']\<rparr>
       else w2),
      \<lparr>list_script = ls1, history_script = hs2, join_script = js2\<rparr>)"
  unfolding mapChannelConnections_def by (cases so) (simp_all add: Let_def)

lemma mapChannelConnections_edges:
  assumes "mapChannelConnections e w script = (outcome, w', script')"
  shows "adds (\<lambda>r. from r \<noteq> to r) w w'"
proof (cases "loadCheckpoint e w")
  case (Inl err)
  with assms show ?thesis by (simp add: mapChannelConnections_def adds_refl)
next
  case (Inr checkpoint)
  obtain go w1 ls1 where g: "getAllChannels e w (list_script script) = (go, w1, ls1)"
    by (metis prod_cases3)
  from getAllChannels_edges [OF g] have a1: "adds (\<lambda>r. from r \<noteq> to r) w w1" .
  show ?thesis
  proof (cases go)
    case Cut
    with assms Inr g a1 show ?thesis by (simp add: mapChannelConnections_def)
  next
    case (Failed err)
    with assms Inr g a1 show ?thesis by (simp add: mapChannelConnections_def)
  next
    case (Done chans)
    note g' = g [unfolded Done]
    show ?thesis
    proof (cases "read_lastChannelIndex checkpoint")
      case (Inl err)
      from mapChannelConnections_Inl [OF Inl Inr g'] assms have "w' = w1"
        by (simp only: prod.inject)
      with a1 show ?thesis by (simp only:)
    next
      case idx: (Inr idx)
      let ?names = "foldl (\<lambda>m c. map_set m (channel_id c) (channel_name c)) [] chans"
      obtain so w2 hs2 js2 where
        s: "scan_from e ?names (start_index idx) chans w1 (history_script script)
              (join_script script) = (so, w2, hs2, js2)" using prod_cases4 by blast
      from scan_from_edges [OF s] have a2: "adds (\<lambda>r. from r \<noteq> to r) w1 w2" .
      from mapChannelConnections_scan [OF idx Inr g' s] assms
      have "w' = w2 \<or> w' = clearCheckpoint (w2\<lparr>metadata_file := Some (build_metadata e chans)\<rparr>)
            \<or> w' = w2\<lparr>console := console w2 @
                      [LogText ''[DEBUG] Debug mode complete - no files written'']\<rparr>"
        by (auto split: if_splits)
      then have "adds (\<lambda>r. from r \<noteq> to r) w2 w'"
        by (auto intro: adds_refl adds_finish adds_LogText)
      with a1 a2 show ?thesis by (blast intro: adds_trans)
    qed
  qed
qed

text \<open>
  Claim C7.  Every record the scanner builds has \<open>from \<noteq> to\<close>: the records in the
  write buffer of a scan of channel \<open>channelId\<close>, and the records that scan appends to
  the edge log or prints, start at \<open>channelId\<close> and end elsewhere; over a whole crawl
  the edge log and the console only grow, by records with \<open>from \<noteq> to\<close>.
\<close>

theorem scanner_no_self_edges:
  "(scan_pass e channelNames channelId channelName i cursor initial_scan_state w hs
      = (po, st, w1, hs1) \<longrightarrow>
      (\<forall>r \<in> set (pendingWrites st). from r = channelId \<and> to r \<noteq> channelId) \<and>
      adds (\<lambda>r. from r = channelId \<and> to r \<noteq> channelId) w w1) \<and>
   (mapChannelConnections e w script = (outcome, w', script') \<longrightarrow>
      adds (\<lambda>r. from r \<noteq> to r) w w')"
proof (intro conjI impI)
  assume p: "scan_pass e channelNames channelId channelName i cursor initial_scan_state w hs
               = (po, st, w1, hs1)"
  have "\<forall>r \<in> set (pendingWrites initial_scan_state). edge_of_scan channelId r"
    by (simp add: initial_scan_state_def)
  from scan_pass_edges [OF this p]
  have a: "adds (edge_of_scan channelId) w w1"
    and b: "\<forall>r \<in> set (pendingWrites st). edge_of_scan channelId r" by simp_all
  from b show "\<forall>r \<in> set (pendingWrites st). from r = channelId \<and> to r \<noteq> channelId"
    by (simp add: edge_of_scan_def)
  from a show "adds (\<lambda>r. from r = channelId \<and> to r \<noteq> channelId) w w1"
    by (rule adds_mono) (simp add: edge_of_scan_def)
next
  assume "mapChannelConnections e w script = (outcome, w', script')"
  then show "adds (\<lambda>r. from r \<noteq> to r) w w'" by (rule mapChannelConnections_edges)
qed

definition example_script :: api_script where
  "example_script =
     \<lparr>list_script = [ListPage [chan ''C0'', chan ''C1''] None],
      history_script =
        [HistoryPage [msg ''1.5'' ''see <#C1> and <#C1|x> <#C0> <#C7>''] (Some ''next''),
         HistoryPage [msg ''1.2'' ''again <#C7> <#C0|self>''] None,
         HistoryPage [msg ''2.1'' ''back to <#C0>''] (Some [])],
      join_script = []\<rparr>"

theorem scanner_no_self_edges_witness:
  "map (\<lambda>r. (from r, to r, messageTs r))
     (log_edges (fst (snd (mapChannelConnections (test_env False) empty_world example_script))))
     = [(''C0'', ''C1'', ''1.5''), (''C0'', ''C7'', ''1.5''), (''C1'', ''C0'', ''2.1'')] \<and>
   list_all (\<lambda>r. from r \<noteq> to r)
     (log_edges (fst (snd (mapChannelConnections (test_env False) empty_world example_script)))) \<and>
   list_all (\<lambda>r. from r = ''C0'' \<and> to r \<noteq> ''C0'')
     (pendingWrites (fst (snd (scan_pass (test_env False) [] ''C0'' ''nC0'' 0 None
        initial_scan_state empty_world (history_script example_script)))))"
proof -
  let ?run = "mapChannelConnections (test_env False) empty_world example_script"
  let ?pass = "scan_pass (test_env False) [] ''C0'' ''nC0'' 0 None initial_scan_state empty_world
                 (history_script example_script)"
  have 1: "map (\<lambda>r. (from r, to r, messageTs r)) (log_edges (fst (snd ?run)))
             = [(''C0'', ''C1'', ''1.5''), (''C0'', ''C7'', ''1.5''), (''C1'', ''C0'', ''2.1'')]"
    by code_simp
  have r: "?run = (fst ?run, fst (snd ?run), snd (snd ?run))" by simp
  have p: "?pass = (fst ?pass, fst (snd ?pass), fst (snd (snd ?pass)), snd (snd (snd ?pass)))"
    by simp
  from scanner_no_self_edges [of "test_env False" "[]" "''C0''" "''nC0''" 0 None empty_world
      "history_script example_script" "fst ?pass" "fst (snd ?pass)" "fst (snd (snd ?pass))"
      "snd (snd (snd ?pass))" example_script "fst ?run" "fst (snd ?run)" "snd (snd ?run)"] r p
  have a: "adds (\<lambda>r. from r \<noteq> to r) empty_world (fst (snd ?run))"
    and b: "\<forall>r \<in> set (pendingWrites (fst (snd ?pass))). from r = ''C0'' \<and> to r \<noteq> ''C0''"
    by blast+
  have "log_edges empty_world = []" by (simp add: log_edges_def empty_world_def)
  with a have 2: "list_all (\<lambda>r. from r \<noteq> to r) (log_edges (fst (snd ?run)))"
    unfolding adds_def by (auto simp: list_all_iff)
  from b have 3: "list_all (\<lambda>r. from r = ''C0'' \<and> to r \<noteq> ''C0'')
                    (pendingWrites (fst (snd ?pass)))"
    by (simp add: list_all_iff)
  from 1 2 3 show ?thesis by blast
qed

subsection \<open>The files that debug mode leaves alone\<close>

text \<open>The edge log, the checkpoint and the metadata file.\<close>

definition guarded_files ::
  "world \<Rightarrow> EdgeRecord list option \<times> checkpoint_json json_file \<times> Metadata option" where
  "guarded_files w = (output_file w, checkpoint_file w, metadata_file w)"

lemma guarded_appendConnections:
  "DEBUG e \<Longrightarrow> guarded_files (appendConnections e conns w) = guarded_files w"
  by (simp add: guarded_files_def appendConnections_def)

lemma guarded_saveCheckpoint:
  "DEBUG e \<Longrightarrow> guarded_files (saveCheckpoint e i c n w) = guarded_files w"
  by (simp add: guarded_files_def saveCheckpoint_def)

lemma guarded_api_calls [simp]: "guarded_files (w\<lparr>api_calls := a\<rparr>) = guarded_files w"
  by (simp add: guarded_files_def)

lemma guarded_console [simp]: "guarded_files (w\<lparr>console := c\<rparr>) = guarded_files w"
  by (simp add: guarded_files_def)

lemma guarded_cache [simp]: "guarded_files (w\<lparr>cache_file := c\<rparr>) = guarded_files w"
  by (simp add: guarded_files_def)

lemma guarded_handle_mentions:
  "DEBUG e \<Longrightarrow>
   guarded_files (result_world (handle_mentions e channelNames channelId channelName ts ms st w))
     = guarded_files w"
  by (induction ms arbitrary: st w)
     (simp_all add: Let_def guarded_appendConnections split: option.splits)

lemma guarded_scan_messages:
  "DEBUG e \<Longrightarrow>
   guarded_files (result_world (scan_messages e channelNames channelId channelName msgs st w))
     = guarded_files w"
proof (induction msgs arbitrary: st w)
  case Nil
  show ?case by simp
next
  case (Cons m msgs)
  let ?h = "handle_mentions e channelNames channelId channelName (msg_ts m) (message_mentions m) st w"
  from guarded_handle_mentions [OF Cons.prems, of channelNames channelId channelName "msg_ts m"
      "message_mentions m" st w]
  show ?case by (cases ?h) (simp_all add: Cons.IH [OF Cons.prems])
qed

lemma guarded_scan_pass:
  "DEBUG e \<Longrightarrow>
   scan_pass e channelNames channelId channelName i cursor st w hs = (outcome, st', w', hs') \<Longrightarrow>
   guarded_files w' = guarded_files w"
proof (induction hs arbitrary: cursor st w)
  case Nil
  then show ?case by auto
next
  case (Cons r hs)
  let ?w1 = "w\<lparr>api_calls := api_calls w @ [HistoryCall channelId cursor]\<rparr>"
  show ?case
  proof (cases r)
    case (HistoryError code)
    with Cons.prems show ?thesis by auto
  next
    case (HistoryPage msgs next_cursor)
    note page = HistoryPage
    show ?thesis
    proof (cases "page_dates e (batchCount st + 1) msgs")
      case (Some err)
      with Cons.prems page show ?thesis by auto
    next
      case None
      note HistoryPage = page None
      let ?s = "scan_messages e channelNames channelId channelName msgs
                  (st\<lparr>batchCount := batchCount st + 1\<rparr>) ?w1"
      note s = guarded_scan_messages [OF Cons.prems(1), of channelNames channelId channelName msgs
          "st\<lparr>batchCount := batchCount st + 1\<rparr>" ?w1]
      show ?thesis
      proof (cases ?s)
        case (Thrown err st2 w2)
        with s Cons.prems HistoryPage show ?thesis by (auto simp: Let_def)
      next
        case (Ok st2 w2)
        with s have g2: "guarded_files w2 = guarded_files w" by simp
        let ?w3 = "if messageCount st2 > 0 \<and> messageCount st2 mod CHECKPOINT_EVERY_N_MESSAGES = 0
                   then saveCheckpoint e i channelId (messageCount st2) w2 else w2"
        have g3: "guarded_files ?w3 = guarded_files w"
          using g2 Cons.prems(1) by (simp add: guarded_saveCheckpoint)
        show ?thesis
        proof (cases "truthy next_cursor")
          case True
          with Cons.prems HistoryPage Ok
          have "scan_pass e channelNames channelId channelName i next_cursor st2 ?w3 hs
                  = (outcome, st', w', hs')" by (simp add: Let_def)
          from Cons.IH [OF Cons.prems(1) this] g3 show ?thesis by simp
        next
          case False
          with Cons.prems HistoryPage Ok
          have "w' = (if pendingWrites st2 \<noteq> [] then appendConnections e (pendingWrites st2) ?w3
                      else ?w3)" by (auto simp: Let_def)
          then have "guarded_files w' = guarded_files ?w3"
            using Cons.prems(1) by (simp add: guarded_appendConnections)
          with g3 show ?thesis by simp
        qed
      qed
    qed
  qed
qed

lemma guarded_scanChannelMessages:
  "DEBUG e \<Longrightarrow>
   scanChannelMessages e channelNames channelId channelName i w hs js = (outcome, w', hs', js')
     \<Longrightarrow> guarded_files w' = guarded_files w"
proof (induction js arbitrary: w hs)
  case Nil
  let ?w0 = "w\<lparr>console := console w @ [LogScan channelName channelId]\<rparr>"
  obtain po st w1 hs1 where
    p: "scan_pass e channelNames channelId channelName i None initial_scan_state ?w0 hs
          = (po, st, w1, hs1)" using prod_cases4 by blast
  from guarded_scan_pass [OF Nil.prems(1) p] have g: "guarded_files w1 = guarded_files w" by simp
  have "w' = w1 \<or> w' = w1\<lparr>api_calls := api_calls w1 @ [JoinCall channelId]\<rparr>"
    using Nil.prems(2) p by (cases po) (auto split: if_splits)
  with g show ?case by auto
next
  case (Cons j js)
  let ?w0 = "w\<lparr>console := console w @ [LogScan channelName channelId]\<rparr>"
  obtain po st w1 hs1 where
    p: "scan_pass e channelNames channelId channelName i None initial_scan_state ?w0 hs
          = (po, st, w1, hs1)" using prod_cases4 by blast
  from guarded_scan_pass [OF Cons.prems(1) p] have g: "guarded_files w1 = guarded_files w" by simp
  let ?w2 = "w1\<lparr>api_calls := api_calls w1 @ [JoinCall channelId]\<rparr>"
  show ?case
  proof (cases "po = PassThrown (ApiError ''not_in_channel'') \<and> j")
    case True
    with Cons.prems(2) p
    have "scanChannelMessages e channelNames channelId channelName i ?w2 hs1 js
            = (outcome, w', hs', js')" by simp
    from Cons.IH [OF Cons.prems(1) this] g show ?thesis by simp
  next
    case False
    have "w' = w1 \<or> w' = ?w2"
      using False Cons.prems(2) p by (cases po) (auto split: if_splits)
    with g show ?thesis by auto
  qed
qed

lemma guarded_scan_channels:
  "DEBUG e \<Longrightarrow> scan_channels e channelNames i chans w hs js = (outcome, w', hs', js')
     \<Longrightarrow> guarded_files w' = guarded_files w"
proof (induction chans arbitrary: i w hs js)
  case Nil
  then show ?case by simp
next
  case (Cons c chans)
  obtain so w1 hs1 js1 where
    s: "scanChannelMessages e channelNames (channel_id c) (channel_name c) i w hs js
          = (so, w1, hs1, js1)" using prod_cases4 by blast
  from guarded_scanChannelMessages [OF Cons.prems(1) s]
  have g: "guarded_files w1 = guarded_files w" .
  show ?case
  proof (cases so)
    case ScanInterrupted
    with Cons.prems(2) s g show ?thesis by simp
  next
    case ScanReturned
    let ?w2 = "saveCheckpoint e i (channel_id c) 0 w1"
    from ScanReturned Cons.prems(2) s
    have "scan_channels e channelNames (i + 1) chans ?w2 hs1 js1 = (outcome, w', hs', js')"
      by simp
    from Cons.IH [OF Cons.prems(1) this] g Cons.prems(1) show ?thesis
      by (simp add: guarded_saveCheckpoint)
  qed
qed

lemma guarded_scan_from:
  "DEBUG e \<Longrightarrow> scan_from e channelNames startIndex chans w hs js = (outcome, w', hs', js')
     \<Longrightarrow> guarded_files w' = guarded_files w"
  by (auto simp: scan_from_def split: option.splits if_splits dest: guarded_scan_channels)

lemma guarded_fetch_channels:
  "fetch_channels cursor acc w ls = (outcome, w', ls') \<Longrightarrow> guarded_files w' = guarded_files w"
proof (induction ls arbitrary: cursor acc w)
  case Nil
  then show ?case by auto
next
  case (Cons r ls)
  let ?w1 = "w\<lparr>api_calls := api_calls w @ [ListCall cursor]\<rparr>"
  show ?case
  proof (cases r)
    case (ListError code)
    with Cons.prems show ?thesis by auto
  next
    case (ListPage chans next_cursor)
    show ?thesis
    proof (cases "truthy next_cursor")
      case True
      with Cons.prems ListPage
      have "fetch_channels next_cursor (acc @ chans) ?w1 ls = (outcome, w', ls')"
        by (simp add: Let_def)
      from Cons.IH [OF this] show ?thesis by simp
    next
      case False
      with Cons.prems ListPage show ?thesis by (auto simp: Let_def)
    qed
  qed
qed

lemma guarded_getAllChannels:
  assumes "getAllChannels e w ls = (outcome, w', ls')"
  shows "guarded_files w' = guarded_files w"
proof -
  let ?w1 = "if CLEAR_CHANNEL_CACHE e then w\<lparr>cache_file := Absent\<rparr> else w"
  have g1: "guarded_files ?w1 = guarded_files w" by simp
  obtain fo w2 ls2 where f: "fetch_channels None [] ?w1 ls = (fo, w2, ls2)"
    using prod_cases3 by blast
  from guarded_fetch_channels [OF f] g1 have g2: "guarded_files w2 = guarded_files w" by simp
  have "w' = ?w1 \<or> w' = w2 \<or> (\<exists>c. w' = w2\<lparr>cache_file := c\<rparr>)"
    using assms f
    by (cases fo) (auto simp: getAllChannels_def Let_def split: sum.splits if_splits)
  with g1 g2 show ?thesis by auto
qed

text \<open>With \<open>DEBUG\<close> set, a crawl leaves the edge log, the checkpoint and the metadata
  file as they were, whatever the workspace answers and wherever the run stops.\<close>

lemma debug_crawl_guarded_files:
  assumes "DEBUG e" and "mapChannelConnections e w script = (outcome, w', script')"
  shows "output_file w' = output_file w \<and> checkpoint_file w' = checkpoint_file w \<and>
         metadata_file w' = metadata_file w"
proof -
  from assms(1) have l: "loadCheckpoint e w = Inr Sentinel" by (simp add: loadCheckpoint_def)
  obtain go w1 ls1 where g: "getAllChannels e w (list_script script) = (go, w1, ls1)"
    using prod_cases3 by blast
  from guarded_getAllChannels [OF g] have g1: "guarded_files w1 = guarded_files w" .
  have "guarded_files w' = guarded_files w"
  proof (cases go)
    case Cut
    with assms(2) l g g1 show ?thesis by (simp add: mapChannelConnections_def)
  next
    case (Failed err)
    with assms(2) l g g1 show ?thesis by (simp add: mapChannelConnections_def)
  next
    case (Done chans)
    note g' = g [unfolded Done]
    let ?names = "foldl (\<lambda>m c. map_set m (channel_id c) (channel_name c)) [] chans"
    have r: "read_lastChannelIndex Sentinel = Inr (Some (- 1))" by simp
    obtain so w2 hs2 js2 where
      s: "scan_from e ?names (start_index (Some (- 1))) chans w1 (history_script script)
            (join_script script) = (so, w2, hs2, js2)" using prod_cases4 by blast
    from guarded_scan_from [OF assms(1) s] g1 have g2: "guarded_files w2 = guarded_files w"
      by simp
    from mapChannelConnections_scan [OF r l g' s] assms
    have "w' = w2 \<or> w' = w2\<lparr>console := console w2 @
                      [LogText ''[DEBUG] Debug mode complete - no files written'']\<rparr>"
      by (auto split: if_splits)
    with g2 show ?thesis by auto
  qed
  then show ?thesis by (simp add: guarded_files_def)
qed

subsection \<open>Example runs\<close>

lemmas crawl_eval =
  mapChannelConnections_def test_env_def empty_world_def example_script_def
  loadCheckpoint_def loadCheckpoint_try_def getAllChannels_def chan_def msg_def truthy_def
  start_index_def scan_from_def initial_scan_state_def message_mentions_def Let_def
  match_mention_def is_id_char_def make_connection_def message_link_def name_or_id_def
  map_get_def appendConnections_def saveCheckpoint_def clearCheckpoint_def build_metadata_def page_dates_def
  WRITE_BATCH_SIZE_def CHECKPOINT_EVERY_N_MESSAGES_def

lemma debug_run_value:
  "mapChannelConnections (test_env True) empty_world example_script =
   (Completed,
    \<lparr>output_file = None, checkpoint_file = Absent,
     cache_file = Holds \<lparr>cachedAt = ''now'', totalChannels = 2,
       cache_channels = [\<lparr>channel_id = ''C0'', channel_name = ''nC0''\<rparr>,
                         \<lparr>channel_id = ''C1'', channel_name = ''nC1''\<rparr>]\<rparr>,
     metadata_file = None,
     console =
       [LogScan ''nC0'' ''C0'',
        LogEdge \<lparr>from = ''C0'', to = ''C1'', fromName = ''nC0'', toName = ''nC1'',
                 messageTs = ''1.5'', messageDate = ''date:1.5'',
                 messageLink = ''https://hackclub.slack.com/archives/C0/p15''\<rparr>,
        LogEdge \<lparr>from = ''C0'', to = ''C7'', fromName = ''nC0'', toName = ''C7'',
                 messageTs = ''1.5'', messageDate = ''date:1.5'',
                 messageLink = ''https://hackclub.slack.com/archives/C0/p15''\<rparr>,
        LogScan ''nC1'' ''C1'',
        LogEdge \<lparr>from = ''C1'', to = ''C0'', fromName = ''nC1'', toName = ''nC0'',
                 messageTs = ''2.1'', messageDate = ''date:2.1'',
                 messageLink = ''https://hackclub.slack.com/archives/C1/p21''\<rparr>,
        LogText ''[DEBUG] Debug mode complete - no files written''],
     api_calls = [ListCall None, HistoryCall ''C0'' None,
                  HistoryCall ''C0'' (Some ''next''), HistoryCall ''C1'' None]\<rparr>,
    \<lparr>list_script = [], history_script = [], join_script = []\<rparr>)"
  by (simp add: crawl_eval)

text \<open>
  Claim C3.  A crawl with \<open>DEBUG\<close> set, started without a channel cache, ends with
  \<open>channels-cache.json\<close> written, and then prints that no files were written:
  \<open>getAllChannels\<close> does not look at the flag.  The edge log, the checkpoint and the
  metadata file stay as they were.
\<close>

theorem debug_crawl_writes_cache:
  "cache_file empty_world = Absent \<and>
   fst (mapChannelConnections (test_env True) empty_world example_script) = Completed \<and>
   cache_file (fst (snd (mapChannelConnections (test_env True) empty_world example_script)))
     = Holds \<lparr>cachedAt = ''now'', totalChannels = 2,
              cache_channels = [chan ''C0'', chan ''C1'']\<rparr> \<and>
   last (console (fst (snd (mapChannelConnections (test_env True) empty_world example_script))))
     = LogText ''[DEBUG] Debug mode complete - no files written'' \<and>
   output_file (fst (snd (mapChannelConnections (test_env True) empty_world example_script)))
     = None \<and>
   checkpoint_file (fst (snd (mapChannelConnections (test_env True) empty_world example_script)))
     = Absent \<and>
   metadata_file (fst (snd (mapChannelConnections (test_env True) empty_world example_script)))
     = None"
  unfolding debug_run_value by (simp add: empty_world_def chan_def)

subsection \<open>A page that starts with a malformed timestamp\<close>

text \<open>
  An environment in which the timestamp \<open>bad\<close> is not a number.  The first message of
  the first page carries it and mentions no channel; the second message mentions \<open>C1\<close>.
  Formatting the date of the first message ends the pass before any message is visited:
  nothing is written.
\<close>

definition strict_env :: env where
  "strict_env = \<lparr>DEBUG = False, CLEAR_CHANNEL_CACHE = False, now = ''now'', elapsed = ''0.00'',
                  toISOString = (\<lambda>ts. if ts = ''bad'' then None else Some (''date:'' @ ts))\<rparr>"

lemma malformed_first_timestamp_ends_pass:
  "scan_pass strict_env [] ''C0'' ''nC0'' 0 None initial_scan_state empty_world
     [HistoryPage [msg ''bad'' ''hello'', msg ''1.0'' ''see <#C1>''] None]
   = (PassThrown RangeError, initial_scan_state\<lparr>batchCount := 1\<rparr>,
      empty_world\<lparr>api_calls := [HistoryCall ''C0'' None]\<rparr>, [])"
  by (simp add: strict_env_def page_dates_def initial_scan_state_def empty_world_def msg_def)

subsection \<open>Resuming a crawl\<close>

text \<open>A new process starts with an empty console and no requests sent; the files stay.\<close>

definition restart :: "world \<Rightarrow> world" where
  "restart w = w\<lparr>console := [], api_calls := []\<rparr>"

text \<open>A first run over the channels \<open>C0\<close>, \<open>C1\<close> that is stopped while it waits for the
  first history page of \<open>C1\<close>, and the run that follows it.\<close>

definition first_run :: "run_outcome \<times> world \<times> api_script" where
  "first_run =
     mapChannelConnections (test_env False) empty_world
       \<lparr>list_script = [ListPage [chan ''C0'', chan ''C1''] None],
        history_script = [HistoryPage [msg ''1.5'' ''see <#C1>''] None],
        join_script = []\<rparr>"

definition second_run :: "run_outcome \<times> world \<times> api_script" where
  "second_run =
     mapChannelConnections (test_env False) (restart (fst (snd first_run)))
       \<lparr>list_script = [],
        history_script = [HistoryPage [msg ''2.5'' ''see <#C0>''] None],
        join_script = []\<rparr>"

lemma first_run_value:
  "first_run =
   (Interrupted,
    \<lparr>output_file = Some
       [\<lparr>from = ''C0'', to = ''C1'', fromName = ''nC0'', toName = ''nC1'',
         messageTs = ''1.5'', messageDate = ''date:1.5'',
         messageLink = ''https://hackclub.slack.com/archives/C0/p15''\<rparr>],
     checkpoint_file = Holds (JsonCheckpoint
        \<lparr>lastChannelIndex = 0, lastChannelId = ''C0'', lastMessageCount = 0,
         timestamp = ''now''\<rparr>),
     cache_file = Holds \<lparr>cachedAt = ''now'', totalChannels = 2,
       cache_channels = [\<lparr>channel_id = ''C0'', channel_name = ''nC0''\<rparr>,
                         \<lparr>channel_id = ''C1'', channel_name = ''nC1''\<rparr>]\<rparr>,
     metadata_file = None,
     console = [LogScan ''nC0'' ''C0'', LogScan ''nC1'' ''C1''],
     api_calls = [ListCall None, HistoryCall ''C0'' None, HistoryCall ''C1'' None]\<rparr>,
    \<lparr>list_script = [], history_script = [], join_script = []\<rparr>)"
  unfolding first_run_def by (simp add: crawl_eval)

lemma second_run_value:
  "fst second_run = Completed \<and> api_calls (fst (snd second_run)) = [HistoryCall ''C1'' None]"
  unfolding second_run_def first_run_value by (simp add: crawl_eval restart_def)

text \<open>
  A checkpoint written at the end of a scan.  The first run finishes channel \<open>C0\<close>,
  writes the checkpoint for it and is stopped in \<open>C1\<close>.  The second run, started from the
  files the first one left, the cached channel list among them, sends a single request,
  for \<open>C1\<close>.
\<close>

lemma end_of_scan_checkpoint_resumes_after:
  "fst first_run = Interrupted \<and>
   checkpoint_file (fst (snd first_run))
     = Holds (JsonCheckpoint \<lparr>lastChannelIndex = 0, lastChannelId = ''C0'',
                               lastMessageCount = 0, timestamp = ''now''\<rparr>) \<and>
   fst second_run = Completed \<and>
   api_calls (fst (snd second_run)) = [HistoryCall ''C1'' None] \<and>
   HistoryCall ''C0'' None \<notin> set (api_calls (fst (snd second_run)))"
  using second_run_value by (simp add: first_run_value)

subsection \<open>A checkpoint written in the middle of a channel\<close>

text \<open>A full page of messages without text, with a cursor to the next page.\<close>

definition quiet_page :: history_response where
  "quiet_page = HistoryPage (replicate 1000 \<lparr>msg_text = None, msg_ts = ''1.0''\<rparr>) (Some ''more'')"

lemma scan_messages_quiet:
  "msg_text m = None \<Longrightarrow>
   scan_messages e channelNames channelId channelName (replicate k m) st w
     = Ok (st\<lparr>messageCount := messageCount st + k\<rparr>) w"
  by (induction k arbitrary: st) (simp_all add: message_mentions_def)

lemma page_dates_quiet:
  "toISOString e ''1.0'' \<noteq> None \<Longrightarrow>
   page_dates e batch (replicate 1000 \<lparr>msg_text = None, msg_ts = ''1.0''\<rparr>) = None"
  by (simp add: page_dates_def)

lemma scan_pass_quiet_page:
  "toISOString e ''1.0'' \<noteq> None \<Longrightarrow>
   scan_pass e channelNames channelId channelName i cursor st w (quiet_page # script) =
     scan_pass e channelNames channelId channelName i (Some ''more'')
       (st\<lparr>batchCount := batchCount st + 1, messageCount := messageCount st + 1000\<rparr>)
       (if (messageCount st + 1000) mod CHECKPOINT_EVERY_N_MESSAGES = 0
        then saveCheckpoint e i channelId (messageCount st + 1000)
               (w\<lparr>api_calls := api_calls w @ [HistoryCall channelId cursor]\<rparr>)
        else w\<lparr>api_calls := api_calls w @ [HistoryCall channelId cursor]\<rparr>)
       script"
  by (simp add: quiet_page_def page_dates_quiet scan_messages_quiet truthy_def Let_def)

text \<open>A first run that is stopped after ten full pages of channel \<open>C0\<close>, with more pages
  to come, and the run that follows it.\<close>

definition long_first_run :: "run_outcome \<times> world \<times> api_script" where
  "long_first_run =
     mapChannelConnections (test_env False) empty_world
       \<lparr>list_script = [ListPage [chan ''C0'', chan ''C1''] None],
        history_script = [quiet_page, quiet_page, quiet_page, quiet_page, quiet_page,
                          quiet_page, quiet_page, quiet_page, quiet_page, quiet_page],
        join_script = []\<rparr>"

definition run_after_long_run :: "run_outcome \<times> world \<times> api_script" where
  "run_after_long_run =
     mapChannelConnections (test_env False) (restart (fst (snd long_first_run)))
       \<lparr>list_script = [],
        history_script = [HistoryPage [msg ''2.5'' ''see <#C0>''] None],
        join_script = []\<rparr>"

lemma long_first_run_value:
  "long_first_run =
   (Interrupted,
    \<lparr>output_file = None,
     checkpoint_file = Holds (JsonCheckpoint
        \<lparr>lastChannelIndex = 0, lastChannelId = ''C0'', lastMessageCount = 10000,
         timestamp = ''now''\<rparr>),
     cache_file = Holds \<lparr>cachedAt = ''now'', totalChannels = 2,
       cache_channels = [\<lparr>channel_id = ''C0'', channel_name = ''nC0''\<rparr>,
                         \<lparr>channel_id = ''C1'', channel_name = ''nC1''\<rparr>]\<rparr>,
     metadata_file = None,
     console = [LogScan ''nC0'' ''C0''],
     api_calls = [ListCall None, HistoryCall ''C0'' None,
       HistoryCall ''C0'' (Some ''more''), HistoryCall ''C0'' (Some ''more''),
       HistoryCall ''C0'' (Some ''more''), HistoryCall ''C0'' (Some ''more''),
       HistoryCall ''C0'' (Some ''more''), HistoryCall ''C0'' (Some ''more''),
       HistoryCall ''C0'' (Some ''more''), HistoryCall ''C0'' (Some ''more''),
       HistoryCall ''C0'' (Some ''more''), HistoryCall ''C0'' (Some ''more'')]\<rparr>,
    \<lparr>list_script = [], history_script = [], join_script = []\<rparr>)"
  unfolding long_first_run_def
  by (simp add: crawl_eval scan_pass_quiet_page del: scan_pass.simps(2))

lemma run_after_long_run_value:
  "fst run_after_long_run = Completed \<and>
   api_calls (fst (snd run_after_long_run)) = [HistoryCall ''C1'' None]"
  unfolding run_after_long_run_def long_first_run_value
  by (simp add: crawl_eval restart_def)

subsection \<open>The requests of a crawl\<close>

text \<open>\<open>channel_call c call\<close>: the request concerns channel \<open>c\<close>.\<close>

fun channel_call :: "string \<Rightarrow> api_call \<Rightarrow> bool" where
  "channel_call c (HistoryCall c' cursor) = (c' = c)"
| "channel_call c (JoinCall c') = (c' = c)"
| "channel_call c (ListCall cursor) = False"

text \<open>The requests of one scan of channel \<open>c\<close>: a history request without cursor, then
  only requests that concern \<open>c\<close>.\<close>

fun scan_block :: "string \<Rightarrow> api_call list \<Rightarrow> bool" where
  "scan_block c (HistoryCall c' None # rest) = (c' = c \<and> list_all (channel_call c) rest)"
| "scan_block c _ = False"

text \<open>\<open>checkpoint.lastChannelIndex + 1\<close> as \<open>mapChannelConnections\<close> computes it from the
  loaded checkpoint.\<close>

definition resume_index :: "env \<Rightarrow> world \<Rightarrow> int option" where
  "resume_index e w =
     (case loadCheckpoint e w of
        Inl err \<Rightarrow> None
      | Inr checkpoint \<Rightarrow>
          (case read_lastChannelIndex checkpoint of
             Inl err \<Rightarrow> None
           | Inr idx \<Rightarrow> start_index idx))"

lemma api_calls_appendConnections [simp]:
  "api_calls (appendConnections e conns w) = api_calls w"
  by (simp add: appendConnections_def)

lemma api_calls_saveCheckpoint [simp]:
  "api_calls (saveCheckpoint e i c n w) = api_calls w"
  by (simp add: saveCheckpoint_def)

lemma api_calls_handle_mentions:
  "api_calls (result_world (handle_mentions e channelNames channelId channelName ts ms st w))
     = api_calls w"
  by (induction ms arbitrary: st w) (simp_all add: Let_def split: option.splits)

lemma api_calls_scan_messages:
  "api_calls (result_world (scan_messages e channelNames channelId channelName msgs st w))
     = api_calls w"
proof (induction msgs arbitrary: st w)
  case Nil
  show ?case by simp
next
  case (Cons m msgs)
  let ?h = "handle_mentions e channelNames channelId channelName (msg_ts m) (message_mentions m) st w"
  from api_calls_handle_mentions [of e channelNames channelId channelName "msg_ts m"
      "message_mentions m" st w]
  show ?case by (cases ?h) (simp_all add: Cons.IH)
qed

lemma api_calls_scan_pass:
  "scan_pass e channelNames channelId channelName i cursor st w hs = (outcome, st', w', hs') \<Longrightarrow>
   \<exists>rest. api_calls w' = api_calls w @ HistoryCall channelId cursor # rest \<and>
          list_all (channel_call channelId) rest"
proof (induction hs arbitrary: cursor st w)
  case Nil
  then show ?case by auto
next
  case (Cons r hs)
  let ?w1 = "w\<lparr>api_calls := api_calls w @ [HistoryCall channelId cursor]\<rparr>"
  show ?case
  proof (cases r)
    case (HistoryError code)
    with Cons.prems show ?thesis by auto
  next
    case (HistoryPage msgs next_cursor)
    note page = HistoryPage
    show ?thesis
    proof (cases "page_dates e (batchCount st + 1) msgs")
      case (Some err)
      with Cons.prems page show ?thesis by auto
    next
      case None
      note HistoryPage = page None
      let ?s = "scan_messages e channelNames channelId channelName msgs
                  (st\<lparr>batchCount := batchCount st + 1\<rparr>) ?w1"
      note s = api_calls_scan_messages [of e channelNames channelId channelName msgs
          "st\<lparr>batchCount := batchCount st + 1\<rparr>" ?w1]
      show ?thesis
      proof (cases ?s)
        case (Thrown err st2 w2)
        with s Cons.prems HistoryPage show ?thesis by (auto simp: Let_def)
      next
        case (Ok st2 w2)
        with s have c2: "api_calls w2 = api_calls w @ [HistoryCall channelId cursor]" by simp
        let ?w3 = "if messageCount st2 > 0 \<and> messageCount st2 mod CHECKPOINT_EVERY_N_MESSAGES = 0
                   then saveCheckpoint e i channelId (messageCount st2) w2 else w2"
        have c3: "api_calls ?w3 = api_calls w @ [HistoryCall channelId cursor]"
          using c2 by simp
        show ?thesis
        proof (cases "truthy next_cursor")
          case True
          with Cons.prems HistoryPage Ok
          have "scan_pass e channelNames channelId channelName i next_cursor st2 ?w3 hs
                  = (outcome, st', w', hs')" by (simp add: Let_def)
          from Cons.IH [OF this] c3 show ?thesis by auto
        next
          case False
          with Cons.prems HistoryPage Ok
          have "w' = (if pendingWrites st2 \<noteq> [] then appendConnections e (pendingWrites st2) ?w3
                      else ?w3)" by (auto simp: Let_def)
          then have "api_calls w' = api_calls ?w3" by simp
          with c3 show ?thesis by simp
        qed
      qed
    qed
  qed
qed

lemma api_calls_scanChannelMessages:
  "scanChannelMessages e channelNames channelId channelName i w hs js = (outcome, w', hs', js')
     \<Longrightarrow> \<exists>block. api_calls w' = api_calls w @ block \<and> scan_block channelId block"
proof (induction js arbitrary: w hs)
  case Nil
  let ?w0 = "w\<lparr>console := console w @ [LogScan channelName channelId]\<rparr>"
  obtain po st w1 hs1 where
    p: "scan_pass e channelNames channelId channelName i None initial_scan_state ?w0 hs
          = (po, st, w1, hs1)" using prod_cases4 by blast
  from api_calls_scan_pass [OF p] obtain rest where
    r: "api_calls w1 = api_calls w @ HistoryCall channelId None # rest"
       "list_all (channel_call channelId) rest" by auto
  have "w' = w1 \<or> w' = w1\<lparr>api_calls := api_calls w1 @ [JoinCall channelId]\<rparr>"
    using Nil p by (cases po) (auto split: if_splits)
  then show ?case
  proof
    assume "w' = w1"
    with r show ?thesis by auto
  next
    assume "w' = w1\<lparr>api_calls := api_calls w1 @ [JoinCall channelId]\<rparr>"
    with r have "api_calls w' = api_calls w @ HistoryCall channelId None # (rest @ [JoinCall channelId])"
      and "scan_block channelId (HistoryCall channelId None # (rest @ [JoinCall channelId]))"
      by simp_all
    then show ?thesis by blast
  qed
next
  case (Cons j js)
  let ?w0 = "w\<lparr>console := console w @ [LogScan channelName channelId]\<rparr>"
  obtain po st w1 hs1 where
    p: "scan_pass e channelNames channelId channelName i None initial_scan_state ?w0 hs
          = (po, st, w1, hs1)" using prod_cases4 by blast
  from api_calls_scan_pass [OF p] obtain rest where
    r: "api_calls w1 = api_calls w @ HistoryCall channelId None # rest"
       "list_all (channel_call channelId) rest" by auto
  let ?w2 = "w1\<lparr>api_calls := api_calls w1 @ [JoinCall channelId]\<rparr>"
  show ?case
  proof (cases "po = PassThrown (ApiError ''not_in_channel'') \<and> j")
    case True
    with Cons.prems p
    have "scanChannelMessages e channelNames channelId channelName i ?w2 hs1 js
            = (outcome, w', hs', js')" by simp
    from Cons.IH [OF this] obtain block where
      b: "api_calls w' = api_calls ?w2 @ block" "scan_block channelId block" by blast
    from b(2) obtain rest2 where
      b2: "block = HistoryCall channelId None # rest2" "list_all (channel_call channelId) rest2"
      by (cases "(channelId, block)" rule: scan_block.cases) auto
    let ?block = "HistoryCall channelId None # (rest @ [JoinCall channelId] @ block)"
    from b r b2 have "api_calls w' = api_calls w @ ?block" "scan_block channelId ?block"
      by simp_all
    then show ?thesis by blast
  next
    case False
    have "w' = w1 \<or> w' = ?w2"
      using False Cons.prems p by (cases po) (auto split: if_splits)
    then show ?thesis
    proof
      assume "w' = w1"
      with r show ?thesis by auto
    next
      assume "w' = ?w2"
      with r have "api_calls w' = api_calls w @ HistoryCall channelId None # (rest @ [JoinCall channelId])"
        and "scan_block channelId (HistoryCall channelId None # (rest @ [JoinCall channelId]))"
        by simp_all
      then show ?thesis by blast
    qed
  qed
qed

lemma api_calls_scan_channels:
  "scan_channels e channelNames i chans w hs js = (outcome, w', hs', js') \<Longrightarrow>
   \<exists>blocks. api_calls w' = api_calls w @ concat blocks \<and>
            length blocks \<le> length chans \<and>
            list_all2 scan_block (map channel_id (take (length blocks) chans)) blocks \<and>
            (outcome = Completed \<longrightarrow> length blocks = length chans)"
proof (induction chans arbitrary: i w hs js)
  case Nil
  then have "api_calls w' = api_calls w @ concat []" "outcome = Completed" by simp_all
  then show ?case by (intro exI [of _ "[]"]) simp
next
  case (Cons c chans)
  obtain so w1 hs1 js1 where
    s: "scanChannelMessages e channelNames (channel_id c) (channel_name c) i w hs js
          = (so, w1, hs1, js1)" using prod_cases4 by blast
  from api_calls_scanChannelMessages [OF s] obtain block where
    b: "api_calls w1 = api_calls w @ block" "scan_block (channel_id c) block" by blast
  show ?case
  proof (cases so)
    case ScanInterrupted
    with Cons.prems s have "w' = w1" "outcome = Interrupted" by simp_all
    with b show ?thesis by (intro exI [of _ "[block]"]) simp
  next
    case ScanReturned
    let ?w2 = "saveCheckpoint e i (channel_id c) 0 w1"
    from ScanReturned Cons.prems s
    have "scan_channels e channelNames (i + 1) chans ?w2 hs1 js1 = (outcome, w', hs', js')"
      by simp
    from Cons.IH [OF this] obtain blocks where
      bs: "api_calls w' = api_calls ?w2 @ concat blocks" "length blocks \<le> length chans"
          "list_all2 scan_block (map channel_id (take (length blocks) chans)) blocks"
          "outcome = Completed \<longrightarrow> length blocks = length chans" by blast
    with b show ?thesis by (intro exI [of _ "block # blocks"]) simp
  qed
qed


lemma api_calls_scan_from:
  assumes "scan_from e channelNames (Some i) chans w hs js = (outcome, w', hs', js')" and "0 \<le> i"
  shows "\<exists>blocks. api_calls w' = api_calls w @ concat blocks \<and>
            length blocks \<le> length (drop (nat i) chans) \<and>
            list_all2 scan_block
              (map channel_id (take (length blocks) (drop (nat i) chans))) blocks \<and>
            (outcome = Completed \<longrightarrow> length blocks = length (drop (nat i) chans))"
proof (cases "i < int (length chans)")
  case True
  with assms have "scan_channels e channelNames i (drop (nat i) chans) w hs js
                     = (outcome, w', hs', js')" by (simp add: scan_from_def)
  then show ?thesis by (rule api_calls_scan_channels)
next
  case False
  with assms have "w' = w" "outcome = Completed" "drop (nat i) chans = []"
    by (simp_all add: scan_from_def)
  then show ?thesis by (intro exI [of _ "[]"]) simp
qed

lemma resume_index_cases:
  "resume_index e w = Some i \<Longrightarrow>
   \<exists>checkpoint idx. loadCheckpoint e w = Inr checkpoint \<and>
      read_lastChannelIndex checkpoint = Inr idx \<and> start_index idx = Some i"
  by (auto simp: resume_index_def split: sum.splits)

text \<open>
  The resume index is \<open>checkpoint.lastChannelIndex + 1\<close>, and \<open>0\<close> when no checkpoint can
  be loaded.  The requests of a run are the requests of the scans of the channels from
  the resume index on, in the order of the channel list of this run (all of them when the
  run completes, a first part of them otherwise); each scan starts with a history request
  without cursor and sends requests for its own channel only.  The index is a position in
  the channel list the run has obtained; \<open>lastChannelId\<close> and \<open>lastMessageCount\<close> play no
  part.
\<close>

lemma resume_at_channel_granularity:
  "(\<not> DEBUG e \<longrightarrow>
      (\<forall>c. checkpoint_file w = Holds (JsonCheckpoint c)
           \<longrightarrow> resume_index e w = Some (lastChannelIndex c + 1)) \<and>
      (checkpoint_file w \<in> {Absent, Unreadable, Garbled, Holds JsonNull}
           \<longrightarrow> resume_index e w = Some 0)) \<and>
   (resume_index e w = Some i \<and> 0 \<le> i \<and>
    getAllChannels e w (list_script script) = (Done chans, w1, ls1) \<and>
    mapChannelConnections e w script = (outcome, w', script') \<longrightarrow>
      (\<exists>blocks. api_calls w' = api_calls w1 @ concat blocks \<and>
         length blocks \<le> length (drop (nat i) chans) \<and>
         list_all2 scan_block
           (map channel_id (take (length blocks) (drop (nat i) chans))) blocks \<and>
         (outcome = Completed \<longrightarrow> length blocks = length (drop (nat i) chans))))"
proof (intro conjI impI allI)
  fix c
  assume "\<not> DEBUG e" and "checkpoint_file w = Holds (JsonCheckpoint c)"
  then show "resume_index e w = Some (lastChannelIndex c + 1)"
    by (simp add: resume_index_def loadCheckpoint_def loadCheckpoint_try_def start_index_def)
next
  assume "\<not> DEBUG e"
    and "checkpoint_file w \<in> {Absent, Unreadable, Garbled, Holds JsonNull}"
  then show "resume_index e w = Some 0"
    by (auto simp: resume_index_def loadCheckpoint_def loadCheckpoint_try_def start_index_def)
next
  assume h: "resume_index e w = Some i \<and> 0 \<le> i \<and>
    getAllChannels e w (list_script script) = (Done chans, w1, ls1) \<and>
    mapChannelConnections e w script = (outcome, w', script')"
  then have i: "0 \<le> i" and g: "getAllChannels e w (list_script script) = (Done chans, w1, ls1)"
    and m: "mapChannelConnections e w script = (outcome, w', script')" by simp_all
  from h resume_index_cases [of e w i] obtain checkpoint idx where
    l: "loadCheckpoint e w = Inr checkpoint" and r: "read_lastChannelIndex checkpoint = Inr idx"
    and si: "start_index idx = Some i" by blast
  let ?names = "foldl (\<lambda>m c. map_set m (channel_id c) (channel_name c)) [] chans"
  obtain so w2 hs2 js2 where
    s: "scan_from e ?names (start_index idx) chans w1 (history_script script)
          (join_script script) = (so, w2, hs2, js2)" using prod_cases4 by blast
  from mapChannelConnections_scan [OF r l g s] m
  have o: "outcome = so" and "api_calls w' = api_calls w2"
    by (auto simp: clearCheckpoint_def split: if_splits)
  with api_calls_scan_from [OF s [unfolded si] i]
  show "\<exists>blocks. api_calls w' = api_calls w1 @ concat blocks \<and>
         length blocks \<le> length (drop (nat i) chans) \<and>
         list_all2 scan_block
           (map channel_id (take (length blocks) (drop (nat i) chans))) blocks \<and>
         (outcome = Completed \<longrightarrow> length blocks = length (drop (nat i) chans))"
    by simp
qed

lemma resume_at_channel_granularity_example:
  "\<not> DEBUG (test_env False) \<and>
   checkpoint_file (restart (fst (snd first_run)))
     = Holds (JsonCheckpoint \<lparr>lastChannelIndex = 0, lastChannelId = ''C0'',
                               lastMessageCount = 0, timestamp = ''now''\<rparr>) \<and>
   resume_index (test_env False) (restart (fst (snd first_run))) = Some 1 \<and>
   (\<exists>blocks. api_calls (fst (snd second_run)) = concat blocks \<and>
      list_all2 scan_block [''C1''] blocks)"
proof -
  let ?e = "test_env False" and ?w = "restart (fst (snd first_run))"
  let ?script = "\<lparr>list_script = [],
        history_script = [HistoryPage [msg ''2.5'' ''see <#C0>''] None], join_script = []\<rparr>"
  let ?chans = "[chan ''C0'', chan ''C1'']"
  have d: "\<not> DEBUG ?e" by (simp add: test_env_def)
  have c: "checkpoint_file ?w
     = Holds (JsonCheckpoint \<lparr>lastChannelIndex = 0, lastChannelId = ''C0'',
                               lastMessageCount = 0, timestamp = ''now''\<rparr>)"
    by (simp add: first_run_value restart_def)
  from resume_at_channel_granularity [of ?e ?w] d c
  have ri: "resume_index ?e ?w = Some 1" by simp
  have g: "getAllChannels ?e ?w (list_script ?script) = (Done ?chans, ?w, [])"
    by (simp add: first_run_value restart_def getAllChannels_def test_env_def chan_def)
  have m: "mapChannelConnections ?e ?w ?script
             = (fst second_run, fst (snd second_run), snd (snd second_run))"
    by (simp add: second_run_def)
  have a: "api_calls ?w = []" by (simp add: restart_def)
  from resume_at_channel_granularity [of ?e ?w 1 ?script ?chans ?w "[]" "fst second_run"
      "fst (snd second_run)" "snd (snd second_run)"] ri g m
  obtain blocks where b: "api_calls (fst (snd second_run)) = api_calls ?w @ concat blocks"
    "length blocks \<le> length (drop (nat 1) ?chans)"
    "list_all2 scan_block (map channel_id (take (length blocks) (drop (nat 1) ?chans))) blocks"
    "fst second_run = Completed \<longrightarrow> length blocks = length (drop (nat 1) ?chans)"
    by auto
  from b(4) second_run_value have "length blocks = 1" by simp
  with b(1,3) a have "api_calls (fst (snd second_run)) = concat blocks"
    "list_all2 scan_block [''C1''] blocks" by (simp_all add: chan_def)
  with d c ri show ?thesis by blast
qed

subsection \<open>Resuming after a checkpoint written in the middle of a channel\<close>

text \<open>
  Claim C2.  A crawl over the channels \<open>C0\<close>, \<open>C1\<close> reads ten full pages of \<open>C0\<close>, 10000
  messages, which makes it write the periodic checkpoint with the index of \<open>C0\<close>, and is
  stopped while it waits for the next page of \<open>C0\<close>.  The run started from the files it
  left computes the resume index \<open>lastChannelIndex + 1 = 1\<close>, runs to its end and has sent
  a single request, for \<open>C1\<close>.  Channel \<open>C0\<close>, the one recorded by the mid-channel
  checkpoint, is not scanned again from the beginning, and the pages of \<open>C0\<close> that the
  first run had not reached are never requested.
\<close>

theorem mid_channel_checkpoint_skips_rest:
  "fst long_first_run = Interrupted \<and>
   last (api_calls (fst (snd long_first_run))) = HistoryCall ''C0'' (Some ''more'') \<and>
   checkpoint_file (fst (snd long_first_run))
     = Holds (JsonCheckpoint \<lparr>lastChannelIndex = 0, lastChannelId = ''C0'',
                               lastMessageCount = 10000, timestamp = ''now''\<rparr>) \<and>
   resume_index (test_env False) (restart (fst (snd long_first_run))) = Some 1 \<and>
   fst run_after_long_run = Completed \<and>
   api_calls (fst (snd run_after_long_run)) = [HistoryCall ''C1'' None] \<and>
   HistoryCall ''C0'' None \<notin> set (api_calls (fst (snd run_after_long_run)))"
  using run_after_long_run_value
  by (simp add: long_first_run_value restart_def resume_index_def loadCheckpoint_def
        loadCheckpoint_try_def start_index_def test_env_def)

subsection \<open>One edge per target in a scan pass\<close>



text \<open>Where a pass puts its records: the console in debug mode, the edge log otherwise.\<close>

definition sink :: "env \<Rightarrow> world \<Rightarrow> EdgeRecord list" where
  "sink e w = (if DEBUG e then shown_edges w else log_edges w)"

text \<open>\<open>first_mention seq r\<close>: the record \<open>r\<close> carries the timestamp of the first
  mention of its target in the sequence \<open>seq\<close>.\<close>

definition first_mention :: "(string \<times> string) list \<Rightarrow> EdgeRecord \<Rightarrow> bool" where
  "first_mention seq r \<longleftrightarrow>
     (\<exists>pre post. seq = pre @ (messageTs r, to r) # post \<and> to r \<notin> snd ` set pre)"

text \<open>\<open>built_from e channelNames channelId channelName r\<close>: \<open>r\<close> is the record the scanner
  builds for its target from a message with its timestamp.\<close>

definition built_from :: "env \<Rightarrow> string js_map \<Rightarrow> string \<Rightarrow> string \<Rightarrow> EdgeRecord \<Rightarrow> bool" where
  "built_from e channelNames channelId channelName r \<longleftrightarrow>
     (\<exists>d. toISOString e (messageTs r) = Some d \<and>
          r = make_connection channelNames channelId channelName (messageTs r) d (to r))"

definition good_records ::
  "env \<Rightarrow> string js_map \<Rightarrow> string \<Rightarrow> string \<Rightarrow> (string \<times> string) list \<Rightarrow> EdgeRecord list \<Rightarrow> bool"
  where
  "good_records e channelNames channelId channelName seq rs \<longleftrightarrow>
     distinct (map to rs) \<and>
     (\<forall>r \<in> set rs. to r \<noteq> channelId \<and> built_from e channelNames channelId channelName r \<and>
                    first_mention seq r)"

definition pass_inv ::
  "env \<Rightarrow> string js_map \<Rightarrow> string \<Rightarrow> string \<Rightarrow> (string \<times> string) list \<Rightarrow> EdgeRecord list
     \<Rightarrow> (string \<times> string) list \<Rightarrow> scan_state \<Rightarrow> world \<Rightarrow> bool" where
  "pass_inv e channelNames channelId channelName seq base seen st w \<longleftrightarrow>
     (\<exists>flushed. sink e w = base @ flushed \<and>
        seenLinks st = map to (flushed @ pendingWrites st) \<and>
        good_records e channelNames channelId channelName seq (flushed @ pendingWrites st) \<and>
        set (seenLinks st) = {t \<in> snd ` set seen. t \<noteq> channelId})"





lemma sink_saveCheckpoint [simp]: "sink e (saveCheckpoint e' i c n w) = sink e w"
  by (simp add: sink_def saveCheckpoint_def log_edges_def shown_edges_def)

lemma sink_api_calls [simp]: "sink e (w\<lparr>api_calls := a\<rparr>) = sink e w"
  by (simp add: sink_def log_edges_def shown_edges_def)

lemma pass_inv_messageCount [simp]:
  "pass_inv e channelNames channelId channelName seq base seen (st\<lparr>messageCount := n\<rparr>) w
     = pass_inv e channelNames channelId channelName seq base seen st w"
  by (simp add: pass_inv_def)

lemma pass_inv_batchCount [simp]:
  "pass_inv e channelNames channelId channelName seq base seen (st\<lparr>batchCount := n\<rparr>) w
     = pass_inv e channelNames channelId channelName seq base seen st w"
  by (simp add: pass_inv_def)















lemma sink_LogScan [simp]: "sink e (w\<lparr>console := console w @ [LogScan a b]\<rparr>) = sink e w"
  by (simp add: sink_def log_edges_def shown_edges_def)











section \<open>The codec reads back what it wrote\<close>

lemma hexval_hexdigit: "k < 16 \<Longrightarrow> hexval (hexdigit k) = Some k"
proof -
  assume "k < 16"
  then have "k = 0 \<or> k = 1 \<or> k = 2 \<or> k = 3 \<or> k = 4 \<or> k = 5 \<or> k = 6 \<or> k = 7 \<or> k = 8 \<or> k = 9 \<or> k = 10 \<or> k = 11 \<or> k = 12 \<or> k = 13 \<or> k = 14 \<or> k = 15"
    by arith
  then show ?thesis
    by (elim disjE) (simp_all add: hexdigit_def hexval_def)
qed

lemma parse_quote_char: "parse_chars (quote_char c @ s) = cons_char c (parse_chars s)"
proof -
  consider (named) "c \<in> {dquote, backslash, CHR 0x08, CHR 0x09, CHR 0x0A, CHR 0x0C, CHR 0x0D}"
    | (control) "c \<notin> {dquote, backslash, CHR 0x08, CHR 0x09, CHR 0x0A, CHR 0x0C, CHR 0x0D}"
        "(of_char c :: nat) < 32"
    | (plain) "c \<notin> {dquote, backslash, CHR 0x08, CHR 0x09, CHR 0x0A, CHR 0x0C, CHR 0x0D}"
        "\<not> (of_char c :: nat) < 32"
    by blast
  then show ?thesis
  proof cases
    case named
    then show ?thesis
      by (elim insertE emptyE)
         (simp_all add: quote_char_def unescape_def dquote_def backslash_def)
  next
    case control
    let ?n = "of_char c :: nat"
    from control(2) have h: "hexval (hexdigit (?n div 16)) = Some (?n div 16)"
      "hexval (hexdigit (?n mod 16)) = Some (?n mod 16)"
      by (simp_all add: hexval_hexdigit)
    have z: "hexval (CHR ''0'') = Some 0" by (simp add: hexval_def)
    from control(2) have lt: "?n < 256" by simp
    from control(1) have q: "quote_char c = [backslash, CHR ''u'', CHR ''0'', CHR ''0'',
            hexdigit (?n div 16), hexdigit (?n mod 16)]"
      using control(2) by (simp add: quote_char_def)
    show ?thesis
      unfolding q using h z lt by (simp add: dquote_def backslash_def)
  next
    case plain
    then show ?thesis by (simp add: quote_char_def)
  qed
qed

lemma parse_quoted:
  "parse_chars (concat (map quote_char s) @ dquote # rest) = Success (s, rest)"
  by (induction s) (simp_all add: parse_quote_char)

lemma json_member_text:
  "json_member k v @ rest =
     dquote # concat (map quote_char k) @ dquote # CHR '':'' # dquote #
       concat (map quote_char v) @ dquote # rest"
  by (simp add: json_member_def json_quote_def)

lemma skip_ws_nonws: "\<not> is_ws c \<Longrightarrow> skip_ws (c # s) = c # s"
  by (simp add: skip_ws_def)

lemma not_ws [simp]:
  "\<not> is_ws dquote" "\<not> is_ws (CHR '':'')" "\<not> is_ws (CHR '','')" "\<not> is_ws (CHR ''}'')"
  "\<not> is_ws (CHR ''{'')"
  by (simp_all add: is_ws_def dquote_def)

lemma skip_ws_member: "skip_ws (json_member k v @ rest) = json_member k v @ rest"
  by (simp add: json_member_text skip_ws_nonws)

lemma parse_members_more:
  "parse_members (json_member k v @ CHR '','' # rest) =
     (case parse_members (skip_ws rest) of
        Success ms \<Rightarrow> Success ((k, v) # ms)
      | SyntaxFailure \<Rightarrow> SyntaxFailure
      | NotModelled \<Rightarrow> NotModelled)"
  by (simp add: json_member_text parse_quoted skip_ws_nonws)

lemma parse_members_last:
  "parse_members (json_member k v @ [CHR ''}'']) = Success [(k, v)]"
  by (simp add: json_member_text parse_quoted skip_ws_nonws skip_ws_def)

lemma parse_object_stringify:
  "parse_object (stringify_record conn) =
     Success [(''from'', from conn), (''to'', to conn), (''fromName'', fromName conn),
              (''toName'', toName conn), (''messageTs'', messageTs conn),
              (''messageDate'', messageDate conn), (''messageLink'', messageLink conn)]"
proof -
  have start: "parse_object (CHR ''{'' # json_member k v @ rest)
                 = parse_members (json_member k v @ rest)" for k v rest
    by (simp add: parse_object_def skip_ws_nonws skip_ws_member)
       (simp add: json_member_text dquote_def)
  show ?thesis
    unfolding stringify_record_def start
    by (simp only: parse_members_more parse_members_last skip_ws_member parse_result.case)
qed

lemma quote_char_no_newline: "CHR 0x0A \<notin> set (quote_char c)"
proof -
  have "hexdigit k \<noteq> CHR 0x0A" if "k < 16" for k
  proof -
    from that have "k = 0 \<or> k = 1 \<or> k = 2 \<or> k = 3 \<or> k = 4 \<or> k = 5 \<or> k = 6 \<or> k = 7 \<or> k = 8 \<or> k = 9 \<or> k = 10 \<or> k = 11 \<or> k = 12 \<or> k = 13 \<or> k = 14 \<or> k = 15"
      by arith
    then show ?thesis by (elim disjE) (simp_all add: hexdigit_def)
  qed
  then have "hexdigit ((of_char c :: nat) div 16) \<noteq> CHR 0x0A"
    "hexdigit ((of_char c :: nat) mod 16) \<noteq> CHR 0x0A" if "(of_char c :: nat) < 32"
    using that by simp_all
  then show ?thesis
    by (auto simp: quote_char_def dquote_def backslash_def)
qed

lemma json_member_no_newline: "CHR 0x0A \<notin> set (json_member k v)"
  using quote_char_no_newline by (auto simp: json_member_def json_quote_def dquote_def)

text \<open>
  Claim C8.  Writing an edge record as one JSON line and parsing the line back gives the
  record again, field for field; the line holds no line break, so it is one line of the
  log.
\<close>

theorem record_roundtrip:
  "parse_record (stringify_record conn) = Success conn \<and>
   CHR 0x0A \<notin> set (stringify_record conn)"
proof
  show "parse_record (stringify_record conn) = Success conn"
    by (simp add: parse_record_def parse_object_stringify property_def)
  show "CHR 0x0A \<notin> set (stringify_record conn)"
    using json_member_no_newline by (simp add: stringify_record_def)
qed

end
